theory Spec2Isabelle
  imports Main "HOL-Library.Word" "HOL-Library.Sublist"
begin

section \<open>JavaScript strings\<close>

text \<open>
  A JavaScript string is a sequence of 16-bit code units. None of the regular expressions
  of \<^verbatim>\<open>server.mjs\<close> carries the \<^verbatim>\<open>u\<close> flag, so each of them reads
  its input one code unit at a time.
\<close>

type_synonym jschar = "16 word"
type_synonym jsstring = "jschar list"

text \<open>ASCII text as a JavaScript string (for literals without a backslash).\<close>

definition js :: "string \<Rightarrow> jsstring" where
  "js s = map (\<lambda>c. of_nat (of_char c)) s"

abbreviation BACKSLASH :: jschar where "BACKSLASH \<equiv> 0x5C"
abbreviation DOLLAR :: jschar where "DOLLAR \<equiv> 0x24"
abbreviation PERCENT :: jschar where "PERCENT \<equiv> 0x25"
abbreviation LPAREN :: jschar where "LPAREN \<equiv> 0x28"
abbreviation RPAREN :: jschar where "RPAREN \<equiv> 0x29"
abbreviation LBRACKET :: jschar where "LBRACKET \<equiv> 0x5B"
abbreviation RBRACKET :: jschar where "RBRACKET \<equiv> 0x5D"
abbreviation LBRACE :: jschar where "LBRACE \<equiv> 0x7B"
abbreviation RBRACE :: jschar where "RBRACE \<equiv> 0x7D"
abbreviation LF :: jschar where "LF \<equiv> 0x0A"
abbreviation CR :: jschar where "CR \<equiv> 0x0D"

text \<open>
  ECMAScript \<^emph>\<open>LineTerminator\<close>: LF, CR, LS (U+2028) and PS (U+2029). Without the
  \<^verbatim>\<open>s\<close> flag the dot matches every code unit but these; with the \<^verbatim>\<open>m\<close>
  flag the assertions \<^verbatim>\<open>^\<close> and \<^verbatim>\<open>$\<close> hold next to them.
\<close>

definition isLineTerminator :: "jschar \<Rightarrow> bool" where
  "isLineTerminator c = (c = LF \<or> c = CR \<or> c = 0x2028 \<or> c = 0x2029)"

text \<open>
  The class \<^verbatim>\<open>\s\<close>, which is also what \<^verbatim>\<open>String.prototype.trim\<close> strips:
  \<^emph>\<open>WhiteSpace\<close> (TAB, VT, FF, ZWNBSP and the space separators of Unicode) together
  with \<^emph>\<open>LineTerminator\<close>.
\<close>

definition isWhiteSpace :: "jschar \<Rightarrow> bool" where
  "isWhiteSpace c =
     (c = 0x09 \<or> c = LF \<or> c = 0x0B \<or> c = 0x0C \<or> c = CR \<or> c = 0x20 \<or> c = 0xA0
      \<or> c = 0x1680 \<or> (0x2000 \<le> c \<and> c \<le> 0x200A) \<or> c = 0x2028 \<or> c = 0x2029
      \<or> c = 0x202F \<or> c = 0x205F \<or> c = 0x3000 \<or> c = 0xFEFF)"

text \<open>The class \<^verbatim>\<open>[\r\n]\<close>.\<close>

definition isCRLF :: "jschar \<Rightarrow> bool" where
  "isCRLF c = (c = CR \<or> c = LF)"

text \<open>\<^verbatim>\<open>String.prototype.trim\<close>: leading and trailing white space removed.\<close>

definition trimStart :: "jsstring \<Rightarrow> jsstring" where
  "trimStart s = dropWhile isWhiteSpace s"

definition trimEnd :: "jsstring \<Rightarrow> jsstring" where
  "trimEnd s = rev (dropWhile isWhiteSpace (rev s))"

definition trim :: "jsstring \<Rightarrow> jsstring" where
  "trim s = trimEnd (trimStart s)"

section \<open>The extraction patterns\<close>

text \<open>
  Matching a literal run of pattern characters at the head of the input: the rest of the
  input after it, or \<open>None\<close> where a code unit differs.
\<close>

fun literal :: "jsstring \<Rightarrow> jsstring \<Rightarrow> jsstring option" where
  "literal [] s = Some s"
| "literal (l # ls) [] = None"
| "literal (l # ls) (c # cs) = (if l = c then literal ls cs else None)"

text \<open>
  Each of the six patterns of \<^verbatim>\<open>extractMathExpressions\<close> is an opening literal, the
  lazy \<^verbatim>\<open>.*?\<close> and a closing literal. They differ in the two literals, in the
  \<^verbatim>\<open>s\<close> flag (the dot also matches line terminators) and in whether the lazy part
  stands in a capture group.
\<close>

record pattern =
  opener :: jsstring
  closer :: jsstring
  dotAll :: bool
  capturing :: bool

text \<open>
  \<^verbatim>\<open>.*?\<close> followed by the closing literal, by backtracking: the closing literal is
  tried first; only where it fails does the dot take one more code unit. The result is
  the text the dots took and the input left after the closing literal.
\<close>

fun lazyDots :: "bool \<Rightarrow> jsstring \<Rightarrow> jsstring \<Rightarrow> (jsstring \<times> jsstring) option" where
  "lazyDots sflag cl [] =
     (case literal cl [] of Some r \<Rightarrow> Some ([], r) | None \<Rightarrow> None)"
| "lazyDots sflag cl (c # cs) =
     (case literal cl (c # cs) of
        Some r \<Rightarrow> Some ([], r)
      | None \<Rightarrow>
          if sflag \<or> \<not> isLineTerminator c
          then (case lazyDots sflag cl cs of
                  Some (g, r) \<Rightarrow> Some (c # g, r)
                | None \<Rightarrow> None)
          else None)"

text \<open>
  A match object: \<^verbatim>\<open>match[0]\<close> is the matched text, \<^verbatim>\<open>match[1]\<close> the text of
  the first capture group, \<^verbatim>\<open>undefined\<close> (\<open>None\<close>) for a pattern without one.
\<close>

record regexMatch =
  full :: jsstring
  group1 :: "jsstring option"

text \<open>
  One match attempt, anchored at the head of the input: the match object and the input
  after the match.
\<close>

definition regexExec :: "pattern \<Rightarrow> jsstring \<Rightarrow> (regexMatch \<times> jsstring) option" where
  "regexExec p s =
     (case literal (opener p) s of
        None \<Rightarrow> None
      | Some s1 \<Rightarrow>
          (case lazyDots (dotAll p) (closer p) s1 of
             None \<Rightarrow> None
           | Some (g, r) \<Rightarrow>
               Some (\<lparr>full = take (length s - length r) s,
                      group1 = (if capturing p then Some g else None)\<rparr>, r)))"

text \<open>
  \<^verbatim>\<open>[...latexContent.matchAll(pattern)]\<close> with the \<^verbatim>\<open>g\<close> flag: the matches from left
  to right, each search starting where the previous match ended. After an empty match
  the search position advances by one code unit.
\<close>

function matchAll :: "pattern \<Rightarrow> jsstring \<Rightarrow> regexMatch list" where
  "matchAll p [] = (case regexExec p [] of Some (m, r) \<Rightarrow> [m] | None \<Rightarrow> [])"
| "matchAll p (c # cs) =
     (case regexExec p (c # cs) of
        None \<Rightarrow> matchAll p cs
      | Some (m, r) \<Rightarrow>
          if length r < length (c # cs) then m # matchAll p r else m # matchAll p cs)"
  by pat_completeness auto
termination
  by (relation "measure (\<lambda>(p, s). length s)") auto

definition pattern1 :: pattern where
  "pattern1 = \<lparr>opener = [BACKSLASH, LPAREN], closer = [BACKSLASH, RPAREN],
               dotAll = False, capturing = False\<rparr>"

definition pattern2 :: pattern where
  "pattern2 = \<lparr>opener = [BACKSLASH, LBRACKET], closer = [BACKSLASH, RBRACKET],
               dotAll = True, capturing = True\<rparr>"

definition pattern3 :: pattern where
  "pattern3 = \<lparr>opener = [DOLLAR], closer = [DOLLAR], dotAll = False, capturing = True\<rparr>"

definition pattern4 :: pattern where
  "pattern4 = \<lparr>opener = BACKSLASH # js ''begin{equation}'',
               closer = BACKSLASH # js ''end{equation}'',
               dotAll = True, capturing = True\<rparr>"

definition pattern5 :: pattern where
  "pattern5 = \<lparr>opener = BACKSLASH # js ''begin{align}'',
               closer = BACKSLASH # js ''end{align}'',
               dotAll = True, capturing = True\<rparr>"

definition pattern6 :: pattern where
  "pattern6 = \<lparr>opener = BACKSLASH # js ''begin{multline}'',
               closer = BACKSLASH # js ''end{multline}'',
               dotAll = True, capturing = True\<rparr>"

definition patterns :: "pattern list" where
  "patterns = [pattern1, pattern2, pattern3, pattern4, pattern5, pattern6]"

section \<open>extractMathExpressions\<close>

text \<open>
  The body of the \<^verbatim>\<open>forEach\<close>: a non-empty \<^verbatim>\<open>match[1]\<close> is pushed, otherwise a
  non-empty \<^verbatim>\<open>match[0]\<close>; \<^verbatim>\<open>undefined\<close> and the empty string are falsy.
\<close>

definition pushMatch :: "jsstring list \<Rightarrow> regexMatch \<Rightarrow> jsstring list" where
  "pushMatch mathExpressions m =
     (case group1 m of
        Some g \<Rightarrow>
          if g \<noteq> [] then mathExpressions @ [g]
          else if full m \<noteq> [] then mathExpressions @ [full m]
          else mathExpressions
      | None \<Rightarrow>
          if full m \<noteq> [] then mathExpressions @ [full m] else mathExpressions)"

text \<open>
  What the specification says a match contributes: the captured text where the pattern
  has a capture group and the group is not empty, the whole matched text otherwise.
\<close>

definition captureOrFull :: "regexMatch \<Rightarrow> jsstring" where
  "captureOrFull m =
     (case group1 m of Some g \<Rightarrow> if g \<noteq> [] then g else full m | None \<Rightarrow> full m)"

definition extractPass :: "jsstring \<Rightarrow> jsstring list \<Rightarrow> pattern \<Rightarrow> jsstring list" where
  "extractPass latexContent mathExpressions p =
     foldl pushMatch mathExpressions (matchAll p latexContent)"

definition extractMathExpressions :: "jsstring \<Rightarrow> jsstring list" where
  "extractMathExpressions latexContent = foldl (extractPass latexContent) [] patterns"

section \<open>Replacing every match of a regular expression\<close>

text \<open>
  \<^verbatim>\<open>str.replace(regex, replacement)\<close> with the \<^verbatim>\<open>g\<close> flag. A regular expression
  is given by its match attempt at one position: from the code unit before the position
  (\<open>None\<close> at the start of the input; the assertion \<^verbatim>\<open>^\<close> reads it) and the input from
  the position on, it returns the input left after the match. The scan goes from left to
  right: a match is replaced and the scan resumes behind it, a code unit at which
  nothing matches is copied. After an empty match the scan advances by one code unit.
  The replacement strings of the source contain no \<^verbatim>\<open>$\<close>, so they are inserted as
  they are.
\<close>

type_synonym regex = "jschar option \<Rightarrow> jsstring \<Rightarrow> jsstring option"

function replaceAll :: "regex \<Rightarrow> jsstring \<Rightarrow> jschar option \<Rightarrow> jsstring \<Rightarrow> jsstring" where
  "replaceAll rx rep prev [] = (case rx prev [] of Some r \<Rightarrow> rep | None \<Rightarrow> [])"
| "replaceAll rx rep prev (c # cs) =
     (case rx prev (c # cs) of
        None \<Rightarrow> c # replaceAll rx rep (Some c) cs
      | Some r \<Rightarrow>
          if length r < length (c # cs)
          then rep @ replaceAll rx rep (Some ((c # cs) ! (length cs - length r))) r
          else rep @ c # replaceAll rx rep (Some c) cs)"
  by pat_completeness auto
termination
  by (relation "measure (\<lambda>(rx, rep, prev, s). length s)") auto

section \<open>cleanLatexSyntax\<close>

subsection \<open>The comment pattern \<^verbatim>\<open>/%.*$/gm\<close>\<close>

text \<open>The assertion \<^verbatim>\<open>$\<close> with the \<^verbatim>\<open>m\<close> flag: the end of the input, or a line
  terminator next.\<close>

fun endOfLine :: "jsstring \<Rightarrow> jsstring option" where
  "endOfLine [] = Some []"
| "endOfLine (c # cs) = (if isLineTerminator c then Some (c # cs) else None)"

text \<open>The greedy \<^verbatim>\<open>.*\<close> followed by \<^verbatim>\<open>$\<close>: the dot takes a code unit where it can;
  where the rest then fails, the assertion is tried at the place itself.\<close>

fun dotsToEol :: "jsstring \<Rightarrow> jsstring option" where
  "dotsToEol [] = endOfLine []"
| "dotsToEol (c # cs) =
     (if \<not> isLineTerminator c
      then (case dotsToEol cs of Some r \<Rightarrow> Some r | None \<Rightarrow> endOfLine (c # cs))
      else endOfLine (c # cs))"

fun commentRx :: regex where
  "commentRx prev [] = None"
| "commentRx prev (c # cs) = (if c = PERCENT then dotsToEol cs else None)"

subsection \<open>The command pattern
  \<^verbatim>\<open>/\\(label|nonumber|tag|qquad|quad|vspace|hspace){[^}]*}/g\<close>\<close>

definition commandNames :: "jsstring list" where
  "commandNames =
     [js ''label'', js ''nonumber'', js ''tag'', js ''qquad'', js ''quad'', js ''vspace'',
      js ''hspace'']"

text \<open>The greedy \<^verbatim>\<open>[^}]*\<close> followed by \<^verbatim>\<open>}\<close>.\<close>

fun notBraces :: "jsstring \<Rightarrow> jsstring option" where
  "notBraces [] = None"
| "notBraces (c # cs) =
     (if c \<noteq> RBRACE
      then (case notBraces cs of
              Some r \<Rightarrow> Some r
            | None \<Rightarrow> if c = RBRACE then Some cs else None)
      else if c = RBRACE then Some cs else None)"

text \<open>\<^verbatim>\<open>{[^}]*}\<close>: the brace is a literal here, since no quantifier bound follows it.\<close>

fun braceArgument :: "jsstring \<Rightarrow> jsstring option" where
  "braceArgument [] = None"
| "braceArgument (c # cs) = (if c = LBRACE then notBraces cs else None)"

text \<open>The alternatives of the group, in their order, each followed by the rest of the
  pattern; where the rest fails, the next alternative is tried.\<close>

fun alternatives :: "jsstring list \<Rightarrow> jsstring \<Rightarrow> jsstring option" where
  "alternatives [] s = None"
| "alternatives (a # as) s =
     (case literal a s of
        None \<Rightarrow> alternatives as s
      | Some r \<Rightarrow>
          (case braceArgument r of Some r' \<Rightarrow> Some r' | None \<Rightarrow> alternatives as s))"

fun commandRx :: regex where
  "commandRx prev [] = None"
| "commandRx prev (c # cs) = (if c = BACKSLASH then alternatives commandNames cs else None)"

subsection \<open>The blank-line pattern \<^verbatim>\<open>/^\s*[\r\n]/gm\<close>\<close>

text \<open>The assertion \<^verbatim>\<open>^\<close> with the \<^verbatim>\<open>m\<close> flag: the start of the input, or a line
  terminator before.\<close>

fun startOfLine :: "jschar option \<Rightarrow> bool" where
  "startOfLine None = True"
| "startOfLine (Some c) = isLineTerminator c"

text \<open>The greedy \<^verbatim>\<open>\s*\<close> followed by \<^verbatim>\<open>[\r\n]\<close>.\<close>

fun spacesToNewline :: "jsstring \<Rightarrow> jsstring option" where
  "spacesToNewline [] = None"
| "spacesToNewline (c # cs) =
     (if isWhiteSpace c
      then (case spacesToNewline cs of
              Some r \<Rightarrow> Some r
            | None \<Rightarrow> if isCRLF c then Some cs else None)
      else if isCRLF c then Some cs else None)"

definition blankLineRx :: regex where
  "blankLineRx prev s = (if startOfLine prev then spacesToNewline s else None)"

subsection \<open>The function\<close>

definition stripComments :: "jsstring \<Rightarrow> jsstring" where
  "stripComments s = replaceAll commentRx [] None s"

definition stripCommands :: "jsstring \<Rightarrow> jsstring" where
  "stripCommands s = replaceAll commandRx [] None s"

definition stripBlankLines :: "jsstring \<Rightarrow> jsstring" where
  "stripBlankLines s = replaceAll blankLineRx [] None s"

definition cleanLatexSyntax :: "jsstring \<Rightarrow> jsstring" where
  "cleanLatexSyntax latexExpression =
     trim (stripBlankLines (stripCommands (stripComments latexExpression)))"

section \<open>The content written by writeOutputFile\<close>

text \<open>The pattern \<^verbatim>\<open>/\\/g\<close>: one backslash.\<close>

fun backslashRx :: regex where
  "backslashRx prev [] = None"
| "backslashRx prev (c # cs) = (if c = BACKSLASH then Some cs else None)"

text \<open>
  \<^verbatim>\<open>Array.prototype.join\<close>: the result starts empty; the separator is appended before
  every element but the first, then the element.
\<close>

definition joinStep :: "jsstring \<Rightarrow> jsstring \<times> nat \<Rightarrow> jsstring \<Rightarrow> jsstring \<times> nat" where
  "joinStep sep Rk x =
     ((if 0 < snd Rk then fst Rk @ sep else fst Rk) @ x, snd Rk + 1)"

definition join :: "jsstring \<Rightarrow> jsstring list \<Rightarrow> jsstring" where
  "join sep xs = fst (foldl (joinStep sep) ([], 0) xs)"

definition escapeExpr :: "jsstring \<Rightarrow> jsstring" where
  "escapeExpr expr = trim (replaceAll backslashRx [BACKSLASH, BACKSLASH] None expr)"

text \<open>The string \<^verbatim>\<open>content\<close> that \<^verbatim>\<open>writeOutputFile\<close> hands to the file system.\<close>

definition writeOutputFile :: "jsstring list \<Rightarrow> jsstring" where
  "writeOutputFile mathExpressions = join [LF, LF] (map escapeExpr mathExpressions)"

section \<open>Calls on arbitrary values\<close>

text \<open>
  JavaScript checks no argument type: the functions can be called on any value. The
  values here are the primitive values, a String object (\<^verbatim>\<open>new String(...)\<close>, with
  the string it wraps) and an object that has none of the properties \<^verbatim>\<open>matchAll\<close>,
  \<^verbatim>\<open>replace\<close> and \<^verbatim>\<open>trim\<close>, own or inherited (a plain object, an array). A
  number is kept as an integer: only the kind of the value decides what a method call on
  it does. An object that defines one of these methods itself runs its own code in the
  call; what the functions do on it is not fixed by the source, and it is no value of
  this type.
\<close>

datatype js_value =
  JSString jsstring
| JSNumber int
| JSBoolean bool
| JSNull
| JSUndefined
| JSStringObject jsstring
| JSPlainObject

text \<open>
  \<open>TypeError\<close> is what the runtime throws where a property is read from \<^verbatim>\<open>null\<close> or
  \<^verbatim>\<open>undefined\<close>, or where the value read is called and is no function.
  \<open>InvalidInputError\<close> is the error kind of the specification; no statement of the
  source throws it.
\<close>

datatype js_error = TypeError | InvalidInputError

text \<open>
  The method calls \<^verbatim>\<open>v.matchAll(...)\<close>, \<^verbatim>\<open>v.replace(...)\<close> and \<^verbatim>\<open>v.trim()\<close>:
  the method found is the one of \<^verbatim>\<open>String.prototype\<close> exactly when \<open>v\<close> is a string
  or a String object, and it then works on the string value of \<open>v\<close>. Reading the method
  from \<^verbatim>\<open>null\<close> or \<^verbatim>\<open>undefined\<close> throws; on a number, a boolean or an object
  without the property the value read is \<^verbatim>\<open>undefined\<close>, and calling it throws.
\<close>

fun stringReceiver :: "js_value \<Rightarrow> js_error + jsstring" where
  "stringReceiver (JSString s) = Inr s"
| "stringReceiver (JSStringObject s) = Inr s"
| "stringReceiver (JSNumber n) = Inl TypeError"
| "stringReceiver (JSBoolean b) = Inl TypeError"
| "stringReceiver JSNull = Inl TypeError"
| "stringReceiver JSUndefined = Inl TypeError"
| "stringReceiver JSPlainObject = Inl TypeError"

definition matchAll_call :: "js_value \<Rightarrow> pattern \<Rightarrow> js_error + regexMatch list" where
  "matchAll_call v p =
     (case stringReceiver v of Inl e \<Rightarrow> Inl e | Inr s \<Rightarrow> Inr (matchAll p s))"

definition replace_call :: "js_value \<Rightarrow> regex \<Rightarrow> jsstring \<Rightarrow> js_error + js_value" where
  "replace_call v rx rep =
     (case stringReceiver v of
        Inl e \<Rightarrow> Inl e
      | Inr s \<Rightarrow> Inr (JSString (replaceAll rx rep None s)))"

definition trim_call :: "js_value \<Rightarrow> js_error + js_value" where
  "trim_call v =
     (case stringReceiver v of Inl e \<Rightarrow> Inl e | Inr s \<Rightarrow> Inr (JSString (trim s)))"

text \<open>
  \<^verbatim>\<open>extractMathExpressions(latexContent)\<close> on any value: the loop over the patterns,
  where an exception thrown by \<^verbatim>\<open>latexContent.matchAll(pattern)\<close> ends the function.
\<close>

fun extractLoop :: "js_value \<Rightarrow> jsstring list \<Rightarrow> pattern list \<Rightarrow> js_error + jsstring list" where
  "extractLoop latexContent mathExpressions [] = Inr mathExpressions"
| "extractLoop latexContent mathExpressions (p # ps) =
     (case matchAll_call latexContent p of
        Inl e \<Rightarrow> Inl e
      | Inr matches \<Rightarrow> extractLoop latexContent (foldl pushMatch mathExpressions matches) ps)"

definition extractMathExpressions_call :: "js_value \<Rightarrow> js_error + jsstring list" where
  "extractMathExpressions_call latexContent = extractLoop latexContent [] patterns"

text \<open>
  \<^verbatim>\<open>cleanLatexSyntax(latexExpression)\<close> on any value: the chain of three
  \<^verbatim>\<open>replace\<close> calls and \<^verbatim>\<open>trim\<close>, each called on the result of the one before;
  an exception thrown by one of them ends the function.
\<close>

definition cleanLatexSyntax_call :: "js_value \<Rightarrow> js_error + js_value" where
  "cleanLatexSyntax_call latexExpression =
     (case replace_call latexExpression commentRx [] of
        Inl e \<Rightarrow> Inl e
      | Inr a \<Rightarrow>
          (case replace_call a commandRx [] of
             Inl e \<Rightarrow> Inl e
           | Inr b \<Rightarrow>
               (case replace_call b blankLineRx [] of
                  Inl e \<Rightarrow> Inl e
                | Inr c \<Rightarrow> trim_call c)))"

section \<open>Properties of the extraction\<close>


lemma literal_Some_iff: "literal l s = Some r \<longleftrightarrow> s = l @ r"
  by (induction l s rule: literal.induct) auto

lemma literal_append: "literal l (l @ r) = Some r"
  by (simp add: literal_Some_iff)

lemma lazyDots_Some: "lazyDots f cl s = Some (g, r) \<Longrightarrow> s = g @ cl @ r"
proof (induction s arbitrary: g)
  case Nil
  then show ?case by (auto simp: literal_Some_iff split: option.splits)
next
  case (Cons c cs)
  show ?case
  proof (cases "literal cl (c # cs)")
    case (Some r')
    with Cons.prems show ?thesis by (auto simp: literal_Some_iff)
  next
    case None
    with Cons.prems obtain g' where "lazyDots f cl cs = Some (g', r)" "g = c # g'"
      by (auto split: if_splits option.splits)
    with Cons.IH show ?thesis by auto
  qed
qed

lemma regexExec_Some:
  assumes "regexExec p s = Some (m, r)"
  shows "\<exists>g. s = opener p @ g @ closer p @ r \<and> full m = opener p @ g @ closer p
            \<and> group1 m = (if capturing p then Some g else None)"
proof -
  from assms obtain s1 g where a: "literal (opener p) s = Some s1"
    and b: "lazyDots (dotAll p) (closer p) s1 = Some (g, r)"
    and c: "m = \<lparr>full = take (length s - length r) s,
                  group1 = (if capturing p then Some g else None)\<rparr>"
    by (auto simp: regexExec_def split: option.splits)
  from a have "s = opener p @ s1" by (simp add: literal_Some_iff)
  moreover from b have "s1 = g @ closer p @ r" by (rule lazyDots_Some)
  ultimately have s: "s = opener p @ g @ closer p @ r" by simp
  have "take (length s - length r) s = opener p @ g @ closer p"
    by (subst (2) s, subst s) simp
  with s c show ?thesis by auto
qed

lemma matchAll_cases:
  "(\<And>s m r. regexExec p s = Some (m, r) \<Longrightarrow> Q m) \<Longrightarrow> m \<in> set (matchAll p s) \<Longrightarrow> Q m"
proof (induction p s rule: matchAll.induct)
  case (1 p)
  from 1(2) obtain r where "regexExec p [] = Some (m, r)"
    by (cases "regexExec p []") auto
  then show ?case by (rule 1(1))
next
  case (2 p c cs)
  show ?case
  proof (cases "regexExec p (c # cs)")
    case None
    with 2 show ?thesis by simp
  next
    case (Some mr)
    obtain m' r where mr: "mr = (m', r)" by (cases mr)
    have "Q m'" using Some mr 2(4) by blast
    then show ?thesis using 2 Some mr by (cases "length r < length (c # cs)") auto
  qed
qed

lemma matchAll_shape:
  assumes "m \<in> set (matchAll p s)"
  shows "\<exists>g. full m = opener p @ g @ closer p \<and> group1 m = (if capturing p then Some g else None)"
proof (rule matchAll_cases [OF _ assms])
  fix s' m' r
  assume "regexExec p s' = Some (m', r)"
  then show "\<exists>g. full m' = opener p @ g @ closer p
      \<and> group1 m' = (if capturing p then Some g else None)"
    using regexExec_Some by blast
qed


lemma pushMatch_acc: "pushMatch acc m = acc @ pushMatch [] m"
  by (simp add: pushMatch_def split: option.splits)

lemma foldl_pushMatch_acc: "foldl pushMatch acc ms = acc @ foldl pushMatch [] ms"
proof (induction ms arbitrary: acc)
  case Nil
  show ?case by simp
next
  case (Cons m ms)
  have "foldl pushMatch acc (m # ms) = foldl pushMatch (pushMatch acc m) ms" by simp
  also have "\<dots> = pushMatch acc m @ foldl pushMatch [] ms" by (rule Cons.IH)
  also have "\<dots> = acc @ pushMatch [] m @ foldl pushMatch [] ms"
    by (subst pushMatch_acc) simp
  also have "pushMatch [] m @ foldl pushMatch [] ms = foldl pushMatch (pushMatch [] m) ms"
    by (rule Cons.IH [symmetric])
  finally show ?case by simp
qed

lemma extractPass_acc: "extractPass s acc p = acc @ extractPass s [] p"
  unfolding extractPass_def by (rule foldl_pushMatch_acc)

lemma extractMathExpressions_passes:
  "extractMathExpressions s =
     extractPass s [] pattern1 @ extractPass s [] pattern2 @ extractPass s [] pattern3 @
     extractPass s [] pattern4 @ extractPass s [] pattern5 @ extractPass s [] pattern6"
proof -
  have "extractMathExpressions s =
      extractPass s (extractPass s (extractPass s (extractPass s (extractPass s
        (extractPass s [] pattern1) pattern2) pattern3) pattern4) pattern5) pattern6"
    by (simp add: extractMathExpressions_def patterns_def)
  also have "\<dots> = extractPass s [] pattern1 @ extractPass s [] pattern2 @
      extractPass s [] pattern3 @ extractPass s [] pattern4 @ extractPass s [] pattern5 @
      extractPass s [] pattern6"
    by (subst extractPass_acc [of s _ pattern6], subst extractPass_acc [of s _ pattern5],
        subst extractPass_acc [of s _ pattern4], subst extractPass_acc [of s _ pattern3],
        subst extractPass_acc [of s _ pattern2]) simp
  finally show ?thesis .
qed

lemmas pattern_defs =
  pattern1_def pattern2_def pattern3_def pattern4_def pattern5_def pattern6_def

lemmas extract_eval =
  extractMathExpressions_def extractPass_def patterns_def pattern_defs js_def regexExec_def
  pushMatch_def isLineTerminator_def

lemma patterns_opener: "p \<in> set patterns \<Longrightarrow> opener p \<noteq> []"
  by (auto simp: patterns_def pattern_defs)

lemma matchAll_full_nonempty:
  assumes "p \<in> set patterns" "m \<in> set (matchAll p s)"
  shows "full m \<noteq> []"
  using matchAll_shape [OF assms(2)] patterns_opener [OF assms(1)] by auto

lemma foldl_pushMatch_map:
  "\<forall>m \<in> set ms. full m \<noteq> [] \<Longrightarrow> foldl pushMatch acc ms = acc @ map captureOrFull ms"
proof (induction ms arbitrary: acc)
  case Nil
  show ?case by simp
next
  case (Cons m ms)
  from Cons.prems have "pushMatch acc m = acc @ [captureOrFull m]"
    by (simp add: pushMatch_def captureOrFull_def split: option.splits)
  with Cons show ?case by simp
qed

lemma pushMatch_nonempty:
  "[] \<notin> set acc \<Longrightarrow> [] \<notin> set (pushMatch acc m)"
  by (auto simp: pushMatch_def split: option.splits)

lemma foldl_pushMatch_nonempty:
  "[] \<notin> set acc \<Longrightarrow> [] \<notin> set (foldl pushMatch acc ms)"
  by (induction ms arbitrary: acc) (simp_all add: pushMatch_nonempty)

lemma extractPass_nonempty: "[] \<notin> set acc \<Longrightarrow> [] \<notin> set (extractPass s acc p)"
  unfolding extractPass_def by (rule foldl_pushMatch_nonempty)

lemma foldl_extractPass_nonempty:
  "[] \<notin> set acc \<Longrightarrow> [] \<notin> set (foldl (extractPass s) acc ps)"
  by (induction ps arbitrary: acc) (simp_all add: extractPass_nonempty)

text \<open>
  Claim C1. The result of \<^verbatim>\<open>extractMathExpressions\<close> is grouped by pass, in the
  fixed order of the six patterns: first everything the \<^verbatim>\<open>\(...\)\<close> pass pushes, then
  the \<^verbatim>\<open>\[...\]\<close> pass, then the \<^verbatim>\<open>$...$\<close> pass, then the three environments;
  where a match stands in the input plays no part. So the strings of the \<^verbatim>\<open>\(...\)\<close>
  pass come before those of the \<^verbatim>\<open>$...$\<close> pass, as in \<^verbatim>\<open>$x$ and \(y\)\<close>, whose
  result is \<^verbatim>\<open>\(y\)\<close> followed by \<^verbatim>\<open>x\<close>.
\<close>

theorem extract_grouped_by_pass:
  "extractMathExpressions s =
     extractPass s [] pattern1 @ extractPass s [] pattern2 @ extractPass s [] pattern3 @
     extractPass s [] pattern4 @ extractPass s [] pattern5 @ extractPass s [] pattern6
   \<and> extractMathExpressions (js ''$x$ and '' @ [BACKSLASH] @ js ''(y'' @ [BACKSLASH] @ js '')'')
       = [[BACKSLASH] @ js ''(y'' @ [BACKSLASH] @ js '')'', js ''x'']"
proof
  show "extractMathExpressions s =
     extractPass s [] pattern1 @ extractPass s [] pattern2 @ extractPass s [] pattern3 @
     extractPass s [] pattern4 @ extractPass s [] pattern5 @ extractPass s [] pattern6"
    by (rule extractMathExpressions_passes)
  show "extractMathExpressions (js ''$x$ and '' @ [BACKSLASH] @ js ''(y'' @ [BACKSLASH] @ js '')'')
       = [[BACKSLASH] @ js ''(y'' @ [BACKSLASH] @ js '')'', js ''x'']"
    by (simp add: extract_eval)
qed

text \<open>
  Claim C2. For each of the six patterns, every match contributes exactly one string:
  the captured inner text where the pattern has a capture group and the captured text is
  not empty, otherwise the whole matched text, which is the opening delimiter, the inner
  text and the closing delimiter. Extraction of \<^verbatim>\<open>\(a+b\)\<close> yields the whole match
  \<^verbatim>\<open>\(a+b\)\<close>, extraction of \<^verbatim>\<open>\[a+b\]\<close> yields the inner text \<^verbatim>\<open>a+b\<close>.
\<close>

theorem extract_capture_or_full:
  assumes "p \<in> set patterns"
  shows "extractPass s acc p = acc @ map captureOrFull (matchAll p s)
    \<and> (\<forall>m \<in> set (matchAll p s). \<exists>g. full m = opener p @ g @ closer p
          \<and> group1 m = (if capturing p then Some g else None))
    \<and> extractMathExpressions ([BACKSLASH] @ js ''(a+b'' @ [BACKSLASH] @ js '')'')
        = [[BACKSLASH] @ js ''(a+b'' @ [BACKSLASH] @ js '')'']
    \<and> extractMathExpressions ([BACKSLASH] @ js ''[a+b'' @ [BACKSLASH] @ js '']'')
        = [js ''a+b'']"
proof (intro conjI ballI)
  show "extractPass s acc p = acc @ map captureOrFull (matchAll p s)"
    unfolding extractPass_def
    by (rule foldl_pushMatch_map) (simp add: matchAll_full_nonempty [OF assms])
  show "\<exists>g. full m = opener p @ g @ closer p
      \<and> group1 m = (if capturing p then Some g else None)"
    if "m \<in> set (matchAll p s)" for m
    using that by (rule matchAll_shape)
  show "extractMathExpressions ([BACKSLASH] @ js ''(a+b'' @ [BACKSLASH] @ js '')'')
        = [[BACKSLASH] @ js ''(a+b'' @ [BACKSLASH] @ js '')'']"
    by (simp add: extract_eval)
  show "extractMathExpressions ([BACKSLASH] @ js ''[a+b'' @ [BACKSLASH] @ js '']'')
        = [js ''a+b'']"
    by (simp add: extract_eval)
qed

theorem extract_capture_or_full_witness:
  "pattern3 \<in> set patterns
   \<and> extractPass (js ''$x$ and $$'') [] pattern3 = [js ''x'', js ''$$'']
   \<and> map captureOrFull (matchAll pattern3 (js ''$x$ and $$'')) = [js ''x'', js ''$$'']"
proof -
  have p: "pattern3 \<in> set patterns" by (simp add: patterns_def)
  have m: "map captureOrFull (matchAll pattern3 (js ''$x$ and $$'')) = [js ''x'', js ''$$'']"
    by (simp add: extract_eval captureOrFull_def)
  from extract_capture_or_full [OF p, of "js ''$x$ and $$''" "[]"] p m show ?thesis by simp
qed

lemma extractLoop_string:
  "stringReceiver v = Inr s \<Longrightarrow> extractLoop v acc ps = Inr (foldl (extractPass s) acc ps)"
  by (induction ps arbitrary: acc) (simp_all add: matchAll_call_def extractPass_def)

lemma extractLoop_no_string:
  "stringReceiver v = Inl e \<Longrightarrow> ps \<noteq> [] \<Longrightarrow> extractLoop v acc ps = Inl e"
  by (cases ps) (simp_all add: matchAll_call_def)

lemma extractMathExpressions_call_string:
  "extractMathExpressions_call (JSString s) = Inr (extractMathExpressions s)"
  by (simp add: extractMathExpressions_call_def extractMathExpressions_def
      extractLoop_string [of "JSString s" s])

lemma matchAll_no_opener:
  "opener p = x # xs \<Longrightarrow> x \<notin> set s \<Longrightarrow> matchAll p s = []"
  by (induction s) (simp_all add: regexExec_def)

lemma patterns_opener_head:
  "p \<in> set patterns \<Longrightarrow> \<exists>xs. opener p = BACKSLASH # xs \<or> opener p = DOLLAR # xs"
  by (auto simp: patterns_def pattern_defs)

lemma matchAll_no_delimiter:
  assumes "p \<in> set patterns" "BACKSLASH \<notin> set s" "DOLLAR \<notin> set s"
  shows "matchAll p s = []"
  using patterns_opener_head [OF assms(1)] assms(2,3) matchAll_no_opener by blast

text \<open>
  Claim C7. Where none of the six patterns matches anywhere in the input,
  \<^verbatim>\<open>extractMathExpressions\<close> returns the empty sequence, as an ordinary result and
  not as an error. An input without a backslash and without a dollar sign is such an
  input.
\<close>

theorem extract_no_match_empty:
  "((\<forall>p \<in> set patterns. matchAll p s = []) \<longrightarrow>
      extractMathExpressions s = [] \<and> extractMathExpressions_call (JSString s) = Inr [])
   \<and> (BACKSLASH \<notin> set s \<and> DOLLAR \<notin> set s \<longrightarrow> (\<forall>p \<in> set patterns. matchAll p s = []))"
proof (intro conjI impI)
  assume "\<forall>p \<in> set patterns. matchAll p s = []"
  then show "extractMathExpressions s = []"
    by (simp add: extractMathExpressions_def extractPass_def patterns_def)
  then show "extractMathExpressions_call (JSString s) = Inr []"
    by (simp add: extractMathExpressions_call_string)
next
  assume "BACKSLASH \<notin> set s \<and> DOLLAR \<notin> set s"
  then show "\<forall>p \<in> set patterns. matchAll p s = []"
    using matchAll_no_delimiter by blast
qed

theorem extract_no_match_empty_witness:
  "extractMathExpressions (js ''no math here'') = []
   \<and> extractMathExpressions_call (JSString (js ''no math here'')) = Inr []"
proof -
  have "BACKSLASH \<notin> set (js ''no math here'') \<and> DOLLAR \<notin> set (js ''no math here'')"
    by (simp add: js_def)
  with extract_no_match_empty [of "js ''no math here''"] show ?thesis by blast
qed

text \<open>
  Claim C9. Every element of the result of \<^verbatim>\<open>extractMathExpressions\<close> is a non-empty
  string; where the capture group is empty, as in \<^verbatim>\<open>$$\<close>, the whole match with its
  delimiters is pushed instead.
\<close>

theorem extract_elements_nonempty:
  "(\<forall>x \<in> set (extractMathExpressions s). x \<noteq> [])
   \<and> (\<forall>p \<in> set patterns. \<forall>m \<in> set (matchAll p s).
         full m \<noteq> [] \<and> (\<exists>g. full m = opener p @ g @ closer p))
   \<and> extractMathExpressions (js ''$$'') = [js ''$$'']"
proof (intro conjI ballI)
  have "[] \<notin> set (extractMathExpressions s)"
    unfolding extractMathExpressions_def by (rule foldl_extractPass_nonempty) simp
  then show "x \<noteq> []" if "x \<in> set (extractMathExpressions s)" for x
    using that by auto
  show "full m \<noteq> []" if "p \<in> set patterns" "m \<in> set (matchAll p s)" for p m
    using that by (rule matchAll_full_nonempty)
  show "\<exists>g. full m = opener p @ g @ closer p"
    if "p \<in> set patterns" "m \<in> set (matchAll p s)" for p m
    using matchAll_shape [OF that(2)] by blast
  show "extractMathExpressions (js ''$$'') = [js ''$$'']"
    by (simp add: extract_eval)
qed

theorem extract_elements_nonempty_witness:
  "extractMathExpressions (js ''$$ $a$'') = [js ''$$'', js ''a''] \<and> js ''$$'' \<noteq> [] \<and> js ''a'' \<noteq> []"
proof -
  have e: "extractMathExpressions (js ''$$ $a$'') = [js ''$$'', js ''a'']"
    by (simp add: extract_eval)
  from extract_elements_nonempty [of "js ''$$ $a$''"] e show ?thesis by simp
qed


section \<open>Properties of the cleanup and of the output\<close>

subsection \<open>Replacing by the empty string only deletes\<close>


lemma replaceAll_length: "length (replaceAll rx [] prev s) \<le> length s"
proof (induction rx "[] :: jsstring" prev s rule: replaceAll.induct)
  case (1 rx prev)
  show ?case by (simp split: option.splits)
next
  case (2 rx prev c cs)
  show ?case
  proof (cases "rx prev (c # cs)")
    case None
    with 2 show ?thesis by simp
  next
    case (Some r)
    with 2 show ?thesis by (cases "length r < length (c # cs)") auto
  qed
qed

lemma replaceAll_subseq:
  "(\<And>prev s r. rx prev s = Some r \<Longrightarrow> suffix r s) \<Longrightarrow> subseq (replaceAll rx [] prev s) s"
proof (induction rx "[] :: jsstring" prev s rule: replaceAll.induct)
  case (1 rx prev)
  show ?case by (simp split: option.splits)
next
  case (2 rx prev c cs)
  show ?case
  proof (cases "rx prev (c # cs)")
    case None
    with 2 show ?thesis by simp
  next
    case (Some r)
    show ?thesis
    proof (cases "length r < length (c # cs)")
      case True
      from Some 2(4) have "suffix r (c # cs)" by blast
      with 2(2) [OF Some True 2(4)]
      have "subseq (replaceAll rx [] (Some ((c # cs) ! (length cs - length r))) r) (c # cs)"
        by (rule list_emb_suffix)
      with Some True show ?thesis by simp
    next
      case False
      with 2 Some show ?thesis by simp
    qed
  qed
qed


subsection \<open>What the three patterns of cleanLatexSyntax match\<close>

lemma dotsToEol_eq: "dotsToEol s = Some (dropWhile (\<lambda>c. \<not> isLineTerminator c) s)"
  by (induction s) auto

lemma commentRx_suffix: "commentRx prev s = Some r \<Longrightarrow> suffix r s"
proof (cases s)
  case Nil
  assume "commentRx prev s = Some r"
  with Nil show ?thesis by simp
next
  case (Cons c cs)
  assume "commentRx prev s = Some r"
  with Cons have "r = dropWhile (\<lambda>c. \<not> isLineTerminator c) cs"
    by (auto simp: dotsToEol_eq split: if_splits)
  then have "suffix r cs" by (simp add: suffix_dropWhile)
  with Cons show ?thesis by (simp add: suffix_Cons)
qed

lemma notBraces_Some_iff:
  "notBraces s = Some r \<longleftrightarrow> (\<exists>arg. RBRACE \<notin> set arg \<and> s = arg @ RBRACE # r)"
proof (induction s)
  case Nil
  show ?case by simp
next
  case (Cons c cs)
  show ?case
  proof (cases "c = RBRACE")
    case True
    have "(\<exists>arg. RBRACE \<notin> set arg \<and> c # cs = arg @ RBRACE # r) \<longleftrightarrow> cs = r"
    proof
      assume "\<exists>arg. RBRACE \<notin> set arg \<and> c # cs = arg @ RBRACE # r"
      then obtain arg where a: "RBRACE \<notin> set arg" "c # cs = arg @ RBRACE # r" by blast
      with True show "cs = r" by (cases arg) auto
    next
      assume "cs = r"
      with True have "RBRACE \<notin> set ([] :: jsstring) \<and> c # cs = [] @ RBRACE # r" by simp
      then show "\<exists>arg. RBRACE \<notin> set arg \<and> c # cs = arg @ RBRACE # r" by blast
    qed
    with True show ?thesis by auto
  next
    case False
    have "(\<exists>arg. RBRACE \<notin> set arg \<and> c # cs = arg @ RBRACE # r)
        \<longleftrightarrow> (\<exists>arg. RBRACE \<notin> set arg \<and> cs = arg @ RBRACE # r)"
    proof
      assume "\<exists>arg. RBRACE \<notin> set arg \<and> c # cs = arg @ RBRACE # r"
      then obtain arg where a: "RBRACE \<notin> set arg" "c # cs = arg @ RBRACE # r" by blast
      with False obtain arg' where "arg = c # arg'" by (cases arg) auto
      with a have "RBRACE \<notin> set arg' \<and> cs = arg' @ RBRACE # r" by simp
      then show "\<exists>arg. RBRACE \<notin> set arg \<and> cs = arg @ RBRACE # r" by blast
    next
      assume "\<exists>arg. RBRACE \<notin> set arg \<and> cs = arg @ RBRACE # r"
      then obtain arg where a: "RBRACE \<notin> set arg" "cs = arg @ RBRACE # r" by blast
      with False have "RBRACE \<notin> set (c # arg) \<and> c # cs = (c # arg) @ RBRACE # r" by simp
      then show "\<exists>arg. RBRACE \<notin> set arg \<and> c # cs = arg @ RBRACE # r" by blast
    qed
    with False Cons.IH show ?thesis by (auto split: option.splits)
  qed
qed

lemma braceArgument_Some_iff:
  "braceArgument s = Some r \<longleftrightarrow> (\<exists>arg. RBRACE \<notin> set arg \<and> s = LBRACE # arg @ RBRACE # r)"
  by (cases s) (auto simp: notBraces_Some_iff)

lemma alternatives_Some:
  "alternatives as s = Some r \<Longrightarrow>
     \<exists>a arg. a \<in> set as \<and> RBRACE \<notin> set arg \<and> s = a @ LBRACE # arg @ RBRACE # r"
proof (induction as)
  case Nil
  then show ?case by simp
next
  case (Cons a as)
  show ?case
  proof (cases "literal a s")
    case None
    with Cons show ?thesis by auto
  next
    case (Some r1)
    then have s: "s = a @ r1" by (simp add: literal_Some_iff)
    show ?thesis
    proof (cases "braceArgument r1")
      case None
      with Some Cons show ?thesis by auto
    next
      case (Some r')
      with \<open>literal a s = Some r1\<close> Cons.prems have "r' = r" by simp
      with Some obtain arg where "RBRACE \<notin> set arg" "r1 = LBRACE # arg @ RBRACE # r"
        by (auto simp: braceArgument_Some_iff)
      with s have "a \<in> set (a # as) \<and> RBRACE \<notin> set arg \<and> s = a @ LBRACE # arg @ RBRACE # r"
        by simp
      then show ?thesis by blast
    qed
  qed
qed

lemma commandRx_Some:
  assumes "commandRx prev s = Some r"
  shows "\<exists>a arg. a \<in> set commandNames \<and> RBRACE \<notin> set arg
           \<and> s = BACKSLASH # a @ LBRACE # arg @ RBRACE # r"
proof (cases s)
  case Nil
  with assms show ?thesis by simp
next
  case (Cons c cs)
  with assms have c: "c = BACKSLASH" and "alternatives commandNames cs = Some r"
    by (auto split: if_splits)
  from alternatives_Some [OF this(2)] c Cons show ?thesis by auto
qed

lemma commandRx_suffix: "commandRx prev s = Some r \<Longrightarrow> suffix r s"
proof -
  assume "commandRx prev s = Some r"
  from commandRx_Some [OF this] obtain a arg where
    "s = (BACKSLASH # a @ LBRACE # arg @ [RBRACE]) @ r" by auto
  then show ?thesis unfolding suffix_def by blast
qed

lemma spacesToNewline_Some:
  "spacesToNewline s = Some r \<Longrightarrow>
     \<exists>w c. s = w @ c # r \<and> (\<forall>x \<in> set w. isWhiteSpace x) \<and> isCRLF c"
proof (induction s)
  case Nil
  then show ?case by simp
next
  case (Cons c cs)
  show ?case
  proof (cases "isWhiteSpace c \<and> spacesToNewline cs \<noteq> None")
    case True
    with Cons.prems have "spacesToNewline cs = Some r" by auto
    from Cons.IH [OF this] obtain w d where
      "cs = w @ d # r" "\<forall>x \<in> set w. isWhiteSpace x" "isCRLF d" by blast
    with True have "c # cs = (c # w) @ d # r \<and> (\<forall>x \<in> set (c # w). isWhiteSpace x) \<and> isCRLF d"
      by simp
    then show ?thesis by blast
  next
    case False
    with Cons.prems have "isCRLF c" "r = cs" by (auto split: if_splits option.splits)
    then have "c # cs = [] @ c # r \<and> (\<forall>x \<in> set ([] :: jsstring). isWhiteSpace x) \<and> isCRLF c"
      by simp
    then show ?thesis by blast
  qed
qed

lemma blankLineRx_suffix: "blankLineRx prev s = Some r \<Longrightarrow> suffix r s"
proof -
  assume "blankLineRx prev s = Some r"
  then have "spacesToNewline s = Some r" by (simp add: blankLineRx_def split: if_splits)
  from spacesToNewline_Some [OF this] obtain w c where "s = (w @ [c]) @ r" by auto
  then show ?thesis unfolding suffix_def by blast
qed

lemma trim_subseq: "subseq (trim s) s"
proof -
  have a: "subseq (trimStart s) s"
    unfolding trimStart_def by (metis suffix_dropWhile suffix_imp_subseq)
  have "prefix (trimEnd t) t" for t :: jsstring
  proof -
    have "suffix (dropWhile isWhiteSpace (rev t)) (rev t)" by (rule suffix_dropWhile)
    then show ?thesis unfolding trimEnd_def by (simp add: suffix_to_prefix)
  qed
  then have "subseq (trimEnd (trimStart s)) (trimStart s)" by (rule prefix_imp_subseq)
  with a show ?thesis unfolding trim_def by (rule subseq_order.trans [rotated])
qed

lemma cleanLatexSyntax_subseq: "subseq (cleanLatexSyntax s) s"
proof -
  have 1: "subseq (stripComments s) s"
    unfolding stripComments_def by (rule replaceAll_subseq) (rule commentRx_suffix)
  have 2: "subseq (stripCommands t) t" for t
    unfolding stripCommands_def by (rule replaceAll_subseq) (rule commandRx_suffix)
  have 3: "subseq (stripBlankLines t) t" for t
    unfolding stripBlankLines_def by (rule replaceAll_subseq) (rule blankLineRx_suffix)
  have "subseq (cleanLatexSyntax s) (stripBlankLines (stripCommands (stripComments s)))"
    unfolding cleanLatexSyntax_def by (rule trim_subseq)
  also have "subseq \<dots> (stripCommands (stripComments s))" by (rule 3)
  also have "subseq \<dots> (stripComments s)" by (rule 2)
  also have "subseq \<dots> s" by (rule 1)
  finally show ?thesis .
qed

text \<open>
  Claim C10. \<^verbatim>\<open>cleanLatexSyntax\<close> never lengthens its input: its result is at most as
  long as the input. Each of the four steps only deletes code units and inserts none, so
  the result is even a subsequence of the input.
\<close>

theorem cleanLatexSyntax_never_longer:
  "length (cleanLatexSyntax s) \<le> length s \<and> subseq (cleanLatexSyntax s) s"
  using cleanLatexSyntax_subseq [of s] by (simp add: list_emb_length)


subsection \<open>The content written by writeOutputFile\<close>

lemma replaceAll_backslashRx:
  "replaceAll backslashRx rep prev s = concat (map (\<lambda>c. if c = BACKSLASH then rep else [c]) s)"
  by (induction s arbitrary: prev) simp_all

lemma foldl_joinStep:
  "fst (foldl (joinStep sep) (R, Suc k) xs) = R @ concat (map (\<lambda>x. sep @ x) xs)"
  by (induction xs arbitrary: R k) (simp_all add: joinStep_def)

lemma join_Nil: "join sep [] = []"
  by (simp add: join_def)

lemma join_Cons: "join sep (x # xs) = x @ concat (map (\<lambda>y. sep @ y) xs)"
  by (simp add: join_def joinStep_def foldl_joinStep)

lemma trimEnd_prefix: "\<exists>z. t = trimEnd t @ z"
proof -
  have "rev (takeWhile isWhiteSpace (rev t) @ dropWhile isWhiteSpace (rev t)) = t"
    by (simp only: takeWhile_dropWhile_id rev_rev_ident)
  then have "t = trimEnd t @ rev (takeWhile isWhiteSpace (rev t))"
    by (simp only: rev_append trimEnd_def)
  then show ?thesis ..
qed

lemma trim_decomposition:
  "\<exists>a b. s = a @ trim s @ b \<and> (\<forall>c \<in> set a. isWhiteSpace c) \<and> (\<forall>c \<in> set b. isWhiteSpace c)"
proof -
  let ?a = "takeWhile isWhiteSpace s"
  let ?t = "trimStart s"
  let ?b = "rev (takeWhile isWhiteSpace (rev ?t))"
  have "s = ?a @ ?t" by (simp add: trimStart_def)
  moreover have "?t = trimEnd ?t @ ?b"
  proof -
    have "rev (takeWhile isWhiteSpace (rev ?t) @ dropWhile isWhiteSpace (rev ?t)) = ?t"
      by (simp only: takeWhile_dropWhile_id rev_rev_ident)
    then show ?thesis by (simp only: rev_append trimEnd_def)
  qed
  ultimately have "s = ?a @ trim s @ ?b" by (simp add: trim_def)
  moreover have "\<forall>c \<in> set ?a. isWhiteSpace c" by (auto dest: set_takeWhileD)
  moreover have "\<forall>c \<in> set ?b. isWhiteSpace c" by (auto dest: set_takeWhileD)
  ultimately show ?thesis by blast
qed

lemma trim_ends:
  "trim s = [] \<or> (\<not> isWhiteSpace (hd (trim s)) \<and> \<not> isWhiteSpace (last (trim s)))"
proof (cases "trim s")
  case Nil
  then show ?thesis by simp
next
  case (Cons c cs)
  let ?t = "trimStart s"
  obtain z where z: "?t = trimEnd ?t @ z" using trimEnd_prefix by blast
  with Cons have "dropWhile isWhiteSpace s = c # cs @ z" by (simp add: trimStart_def trim_def)
  then have first: "\<not> isWhiteSpace c" by (simp add: dropWhile_eq_Cons_conv)
  from Cons have ne: "dropWhile isWhiteSpace (rev ?t) \<noteq> []"
    by (auto simp: trim_def trimEnd_def)
  then have "\<not> isWhiteSpace (hd (dropWhile isWhiteSpace (rev ?t)))" by (rule hd_dropWhile)
  moreover have "last (trim s) = hd (dropWhile isWhiteSpace (rev ?t))"
    using ne by (simp add: trim_def trimEnd_def last_rev)
  ultimately have "\<not> isWhiteSpace (last (trim s))" by simp
  with first Cons show ?thesis by simp
qed

text \<open>
  Claim C5. The content \<^verbatim>\<open>writeOutputFile\<close> builds: in every element each backslash
  is replaced by two backslashes, the element is then trimmed, and the elements are
  concatenated with exactly the two line feeds \<^verbatim>\<open>"\n\n"\<close> between consecutive
  elements (none before the first or after the last). Trimming a string takes white
  space, and nothing else, from its two ends and leaves no white space at either end. On
  the two elements \<^verbatim>\<open>a\b\<close> and \<^verbatim>\<open>c\<close> the content is \<^verbatim>\<open>a\\b\<close>, two line
  feeds, \<^verbatim>\<open>c\<close>; on \<^verbatim>\<open>" a\b "\<close> and \<^verbatim>\<open>"c "\<close> it is the same.
\<close>

theorem writeOutputFile_content:
  "writeOutputFile [] = []
   \<and> writeOutputFile [x] = escapeExpr x
   \<and> writeOutputFile (x # y # ys) = escapeExpr x @ [LF, LF] @ writeOutputFile (y # ys)
   \<and> escapeExpr x =
       trim (concat (map (\<lambda>c. if c = BACKSLASH then [BACKSLASH, BACKSLASH] else [c]) x))
   \<and> (\<exists>a b. s = a @ trim s @ b \<and> (\<forall>c \<in> set a. isWhiteSpace c) \<and> (\<forall>c \<in> set b. isWhiteSpace c))
   \<and> (trim s = [] \<or> (\<not> isWhiteSpace (hd (trim s)) \<and> \<not> isWhiteSpace (last (trim s))))
   \<and> writeOutputFile [js ''a'' @ [BACKSLASH] @ js ''b'', js ''c'']
       = js ''a'' @ [BACKSLASH, BACKSLASH] @ js ''b'' @ [LF, LF] @ js ''c''
   \<and> writeOutputFile [js '' a'' @ [BACKSLASH] @ js ''b '', [0x09] @ js ''c '' @ [LF]]
       = js ''a'' @ [BACKSLASH, BACKSLASH] @ js ''b'' @ [LF, LF] @ js ''c''"
proof (intro conjI)
  show "writeOutputFile [] = []"
    by (simp add: writeOutputFile_def join_Nil)
  show "writeOutputFile [x] = escapeExpr x"
    by (simp add: writeOutputFile_def join_Cons)
  show "writeOutputFile (x # y # ys) = escapeExpr x @ [LF, LF] @ writeOutputFile (y # ys)"
    by (simp add: writeOutputFile_def join_Cons)
  show e: "escapeExpr x =
       trim (concat (map (\<lambda>c. if c = BACKSLASH then [BACKSLASH, BACKSLASH] else [c]) x))"
    for x
    by (simp add: escapeExpr_def replaceAll_backslashRx)
  show "\<exists>a b. s = a @ trim s @ b \<and> (\<forall>c \<in> set a. isWhiteSpace c) \<and> (\<forall>c \<in> set b. isWhiteSpace c)"
    by (rule trim_decomposition)
  show "trim s = [] \<or> (\<not> isWhiteSpace (hd (trim s)) \<and> \<not> isWhiteSpace (last (trim s)))"
    by (rule trim_ends)
  show "writeOutputFile [js ''a'' @ [BACKSLASH] @ js ''b'', js ''c'']
       = js ''a'' @ [BACKSLASH, BACKSLASH] @ js ''b'' @ [LF, LF] @ js ''c''"
    by (simp add: writeOutputFile_def join_Cons e trim_def trimStart_def trimEnd_def
        isWhiteSpace_def js_def)
  show "writeOutputFile [js '' a'' @ [BACKSLASH] @ js ''b '', [0x09] @ js ''c '' @ [LF]]
       = js ''a'' @ [BACKSLASH, BACKSLASH] @ js ''b'' @ [LF, LF] @ js ''c''"
    by (simp add: writeOutputFile_def join_Cons e trim_def trimStart_def trimEnd_def
        isWhiteSpace_def js_def)
qed

theorem writeOutputFile_content_witness:
  "trim (js '' a b  '') = js ''a b''
   \<and> \<not> isWhiteSpace (hd (trim (js '' a b  '')))
   \<and> \<not> isWhiteSpace (last (trim (js '' a b  '')))
   \<and> writeOutputFile [js '' a b  ''] = js ''a b''"
proof -
  have v: "trim (js '' a b  '') = js ''a b''" by code_simp
  then have ne: "trim (js '' a b  '') \<noteq> []" by (simp add: js_def)
  note th = writeOutputFile_content [of "js '' a b  ''" _ _ "js '' a b  ''"]
  from th ne have 1: "\<not> isWhiteSpace (hd (trim (js '' a b  '')))
      \<and> \<not> isWhiteSpace (last (trim (js '' a b  '')))" by blast
  from th have "writeOutputFile [js '' a b  ''] = escapeExpr (js '' a b  '')"
    and "escapeExpr (js '' a b  '') = trim (concat
      (map (\<lambda>c. if c = BACKSLASH then [BACKSLASH, BACKSLASH] else [c]) (js '' a b  '')))"
    by blast+
  moreover have "concat (map (\<lambda>c. if c = BACKSLASH then [BACKSLASH, BACKSLASH] else [c])
      (js '' a b  '')) = js '' a b  ''" by (simp add: js_def)
  ultimately have 2: "writeOutputFile [js '' a b  ''] = js ''a b''" using v by simp
  from v 1 2 show ?thesis by simp
qed

subsection \<open>Totality and arguments that are not strings\<close>

lemma stringReceiver_error: "stringReceiver v = Inl e \<Longrightarrow> e = TypeError"
  by (cases v) simp_all

lemma stringReceiver_cases:
  "(\<exists>s. stringReceiver v = Inr s) \<or> stringReceiver v = Inl TypeError"
  by (cases v) simp_all

lemma cleanLatexSyntax_call_string:
  "stringReceiver v = Inr s \<Longrightarrow> cleanLatexSyntax_call v = Inr (JSString (cleanLatexSyntax s))"
  by (simp add: cleanLatexSyntax_call_def replace_call_def trim_call_def cleanLatexSyntax_def
      stripComments_def stripCommands_def stripBlankLines_def)

lemma cleanLatexSyntax_call_no_string:
  "stringReceiver v = Inl e \<Longrightarrow> cleanLatexSyntax_call v = Inl e"
  by (simp add: cleanLatexSyntax_call_def replace_call_def)

lemma patterns_not_Nil: "patterns \<noteq> []"
  by (simp add: patterns_def)

lemma extractMathExpressions_call_receiver:
  "stringReceiver v = Inr s \<Longrightarrow> extractMathExpressions_call v = Inr (extractMathExpressions s)"
  by (simp add: extractMathExpressions_call_def extractMathExpressions_def extractLoop_string)

lemma extractMathExpressions_call_no_string:
  "stringReceiver v = Inl e \<Longrightarrow> extractMathExpressions_call v = Inl e"
  unfolding extractMathExpressions_call_def
  by (rule extractLoop_no_string) (simp_all add: patterns_not_Nil)

lemma calls_never_InvalidInputError:
  "extractMathExpressions_call v \<noteq> Inl InvalidInputError
   \<and> cleanLatexSyntax_call v \<noteq> Inl InvalidInputError"
proof (cases "stringReceiver v")
  case (Inl e)
  then have "e = TypeError" by (rule stringReceiver_error)
  with Inl show ?thesis
    by (simp add: extractMathExpressions_call_no_string cleanLatexSyntax_call_no_string)
next
  case (Inr s)
  then show ?thesis
    by (simp add: extractMathExpressions_call_receiver cleanLatexSyntax_call_string)
qed

text \<open>
  Claim C8, as amended. \<^verbatim>\<open>extractMathExpressions\<close> and \<^verbatim>\<open>cleanLatexSyntax\<close> return
  a result on every string: no method call of the loop or of the chain fails there. A
  String object is processed as the string it wraps. The source checks no argument and
  throws no \<open>InvalidInputError\<close> on any value: on \<^verbatim>\<open>undefined\<close>, \<^verbatim>\<open>null\<close>, a
  number, a boolean or an object without the methods \<^verbatim>\<open>matchAll\<close> and
  \<^verbatim>\<open>replace\<close>, the first method call on the argument fails with the \<open>TypeError\<close> of
  the runtime.
\<close>

theorem core_total_on_strings:
  "extractMathExpressions_call (JSString s) = Inr (extractMathExpressions s)
   \<and> cleanLatexSyntax_call (JSString s) = Inr (JSString (cleanLatexSyntax s))
   \<and> extractMathExpressions_call (JSStringObject s) = Inr (extractMathExpressions s)
   \<and> cleanLatexSyntax_call (JSStringObject s) = Inr (JSString (cleanLatexSyntax s))
   \<and> ((\<forall>t. v \<noteq> JSString t \<and> v \<noteq> JSStringObject t) \<longrightarrow>
        extractMathExpressions_call v = Inl TypeError \<and> cleanLatexSyntax_call v = Inl TypeError)
   \<and> extractMathExpressions_call v \<noteq> Inl InvalidInputError
   \<and> cleanLatexSyntax_call v \<noteq> Inl InvalidInputError"
proof (intro conjI impI)
  show "extractMathExpressions_call (JSString s) = Inr (extractMathExpressions s)"
    by (rule extractMathExpressions_call_receiver) simp
  show "cleanLatexSyntax_call (JSString s) = Inr (JSString (cleanLatexSyntax s))"
    by (rule cleanLatexSyntax_call_string) simp
  show "extractMathExpressions_call (JSStringObject s) = Inr (extractMathExpressions s)"
    by (rule extractMathExpressions_call_receiver) simp
  show "cleanLatexSyntax_call (JSStringObject s) = Inr (JSString (cleanLatexSyntax s))"
    by (rule cleanLatexSyntax_call_string) simp
  show "extractMathExpressions_call v \<noteq> Inl InvalidInputError"
    using calls_never_InvalidInputError [of v] by simp
  show "cleanLatexSyntax_call v \<noteq> Inl InvalidInputError"
    using calls_never_InvalidInputError [of v] by simp
next
  assume "\<forall>t. v \<noteq> JSString t \<and> v \<noteq> JSStringObject t"
  then have r: "stringReceiver v = Inl TypeError" by (cases v) simp_all
  from r show "extractMathExpressions_call v = Inl TypeError"
    by (rule extractMathExpressions_call_no_string)
  from r show "cleanLatexSyntax_call v = Inl TypeError"
    by (rule cleanLatexSyntax_call_no_string)
qed

theorem core_total_on_strings_witness:
  "extractMathExpressions_call (JSString (js ''$x$'')) = Inr [js ''x'']
   \<and> cleanLatexSyntax_call (JSStringObject (js '' x '')) = Inr (JSString (js ''x''))
   \<and> extractMathExpressions_call (JSNumber 5) = Inl TypeError
   \<and> cleanLatexSyntax_call (JSNumber 5) = Inl TypeError"
proof -
  have e: "extractMathExpressions (js ''$x$'') = [js ''x'']"
    by (simp add: extract_eval)
  have c: "cleanLatexSyntax (js '' x '') = js ''x''"
    by code_simp
  have n: "\<forall>t. JSNumber 5 \<noteq> JSString t \<and> JSNumber 5 \<noteq> JSStringObject t" by simp
  from core_total_on_strings [of "js ''$x$''" "JSNumber 5"] e n
  have 1: "extractMathExpressions_call (JSString (js ''$x$'')) = Inr [js ''x'']
    \<and> extractMathExpressions_call (JSNumber 5) = Inl TypeError
    \<and> cleanLatexSyntax_call (JSNumber 5) = Inl TypeError" by simp
  from core_total_on_strings [of "js '' x ''" "JSNumber 5"] c
  have 2: "cleanLatexSyntax_call (JSStringObject (js '' x '')) = Inr (JSString (js ''x''))"
    by simp
  from 1 2 show ?thesis by simp
qed

text \<open>
  The claim as stated fails on \<^verbatim>\<open>undefined\<close>: both functions throw a \<open>TypeError\<close>,
  not an \<open>InvalidInputError\<close>.
\<close>

theorem non_string_not_InvalidInputError:
  "extractMathExpressions_call JSUndefined = Inl TypeError
   \<and> extractMathExpressions_call JSUndefined \<noteq> Inl InvalidInputError
   \<and> cleanLatexSyntax_call JSUndefined = Inl TypeError
   \<and> cleanLatexSyntax_call JSUndefined \<noteq> Inl InvalidInputError"
  by (simp add: extractMathExpressions_call_no_string cleanLatexSyntax_call_no_string)

subsection \<open>Comment stripping\<close>

lemma replaceAll_commentRx_prev:
  "replaceAll commentRx rep prev s = replaceAll commentRx rep None s"
  by (cases s) simp_all

lemma stripComments_Nil: "stripComments [] = []"
  by (simp add: stripComments_def)

lemma stripComments_keep:
  "c \<noteq> PERCENT \<Longrightarrow> stripComments (c # cs) = c # stripComments cs"
  unfolding stripComments_def
  by (simp add: replaceAll_commentRx_prev [of _ "Some c"])

lemma dropWhile_line:
  "\<forall>c \<in> set l. \<not> isLineTerminator c \<Longrightarrow> isLineTerminator t \<Longrightarrow>
     dropWhile (\<lambda>c. \<not> isLineTerminator c) (l @ t # rest) = t # rest"
  by (induction l) simp_all

lemma dropWhile_last_line:
  "\<forall>c \<in> set l. \<not> isLineTerminator c \<Longrightarrow> dropWhile (\<lambda>c. \<not> isLineTerminator c) l = []"
  by (induction l) simp_all

lemma stripComments_percent:
  "stripComments (PERCENT # cs) = stripComments (dropWhile (\<lambda>c. \<not> isLineTerminator c) cs)"
proof -
  let ?r = "dropWhile (\<lambda>c. \<not> isLineTerminator c) cs"
  have "length ?r \<le> length cs" by (rule length_dropWhile_le)
  then have "length ?r < length (PERCENT # cs)" by simp
  then have "replaceAll commentRx [] None (PERCENT # cs)
      = replaceAll commentRx [] (Some ((PERCENT # cs) ! (length cs - length ?r))) ?r"
    by (simp add: dotsToEol_eq)
  then show ?thesis
    unfolding stripComments_def by (simp add: replaceAll_commentRx_prev [of _ "Some _"])
qed

lemma isLineTerminator_PERCENT: "\<not> isLineTerminator PERCENT"
  by (simp add: isLineTerminator_def)

lemma stripComments_line:
  assumes "\<forall>c \<in> set l. \<not> isLineTerminator c" "isLineTerminator t"
  shows "stripComments (l @ t # rest) = takeWhile (\<lambda>c. c \<noteq> PERCENT) l @ t # stripComments rest"
  using assms(1)
proof (induction l)
  case Nil
  from assms(2) isLineTerminator_PERCENT have "t \<noteq> PERCENT" by auto
  then show ?case by (simp add: stripComments_keep)
next
  case (Cons c l)
  show ?case
  proof (cases "c = PERCENT")
    case True
    from Cons.prems have l: "\<forall>c \<in> set l. \<not> isLineTerminator c" by simp
    from assms(2) isLineTerminator_PERCENT have "t \<noteq> PERCENT" by auto
    then show ?thesis
      using True by (simp add: stripComments_percent dropWhile_line [OF l assms(2)]
          stripComments_keep)
  next
    case False
    with Cons show ?thesis by (simp add: stripComments_keep)
  qed
qed

lemma stripComments_last_line:
  assumes "\<forall>c \<in> set l. \<not> isLineTerminator c"
  shows "stripComments l = takeWhile (\<lambda>c. c \<noteq> PERCENT) l"
  using assms
proof (induction l)
  case Nil
  show ?case by (simp add: stripComments_Nil)
next
  case (Cons c l)
  show ?case
  proof (cases "c = PERCENT")
    case True
    from Cons.prems have l: "\<forall>c \<in> set l. \<not> isLineTerminator c" by simp
    show ?thesis
      using True by (simp add: stripComments_percent dropWhile_last_line [OF l]
          stripComments_Nil)
  next
    case False
    with Cons show ?thesis by (simp add: stripComments_keep)
  qed
qed

lemma stripComments_no_percent: "PERCENT \<notin> set (stripComments s)"
proof (induction s rule: length_induct)
  case (1 s)
  show ?case
  proof (cases s)
    case Nil
    then show ?thesis by (simp add: stripComments_Nil)
  next
    case (Cons c cs)
    show ?thesis
    proof (cases "c = PERCENT")
      case True
      have "length (dropWhile (\<lambda>c. \<not> isLineTerminator c) cs) < length s"
        using Cons length_dropWhile_le [of "\<lambda>c. \<not> isLineTerminator c" cs] by simp
      with 1 have "PERCENT \<notin> set (stripComments (dropWhile (\<lambda>c. \<not> isLineTerminator c) cs))"
        by blast
      with True Cons show ?thesis by (simp add: stripComments_percent)
    next
      case False
      from 1 Cons have "PERCENT \<notin> set (stripComments cs)" by simp
      with False Cons show ?thesis by (simp add: stripComments_keep)
    qed
  qed
qed

lemma stripComments_id: "PERCENT \<notin> set s \<Longrightarrow> stripComments s = s"
  by (induction s) (simp_all add: stripComments_Nil stripComments_keep)

text \<open>
  Claim C3, as amended. The comment-stripping step of \<^verbatim>\<open>cleanLatexSyntax\<close> removes,
  on every line, exactly the text from the first \<^verbatim>\<open>%\<close> of the line to the end of the
  line, whether or not a backslash stands before that \<^verbatim>\<open>%\<close>; the text of the line
  before it and the line terminator stay as they are. A line ends at a line terminator
  or at the end of the input.
\<close>

theorem stripComments_per_line:
  "((\<forall>c \<in> set l. \<not> isLineTerminator c) \<and> isLineTerminator t \<longrightarrow>
      stripComments (l @ t # rest) = takeWhile (\<lambda>c. c \<noteq> PERCENT) l @ t # stripComments rest)
   \<and> ((\<forall>c \<in> set l. \<not> isLineTerminator c) \<longrightarrow>
      stripComments l = takeWhile (\<lambda>c. c \<noteq> PERCENT) l)"
  using stripComments_line [of l t rest] stripComments_last_line [of l] by blast

theorem stripComments_per_line_witness:
  "stripComments (js ''a=1 % one'' @ [LF] @ js ''b % two'') = js ''a=1 '' @ [LF] @ js ''b ''
   \<and> stripComments (js ''b % two'') = js ''b ''"
proof -
  have l: "\<forall>c \<in> set (js ''a=1 % one''). \<not> isLineTerminator c"
    by (simp add: js_def isLineTerminator_def)
  have l2: "\<forall>c \<in> set (js ''b % two''). \<not> isLineTerminator c"
    by (simp add: js_def isLineTerminator_def)
  have t: "isLineTerminator LF" by (simp add: isLineTerminator_def)
  have a: "takeWhile (\<lambda>c. c \<noteq> PERCENT) (js ''a=1 % one'') = js ''a=1 ''"
    by (simp add: js_def)
  have b: "takeWhile (\<lambda>c. c \<noteq> PERCENT) (js ''b % two'') = js ''b ''"
    by (simp add: js_def)
  from stripComments_per_line [of "js ''a=1 % one''" LF "js ''b % two''"] l t a
  have 1: "stripComments (js ''a=1 % one'' @ LF # js ''b % two'')
      = js ''a=1 '' @ LF # stripComments (js ''b % two'')" by simp
  from stripComments_per_line [of "js ''b % two''" LF "[]"] l2 b
  have 2: "stripComments (js ''b % two'') = js ''b ''" by simp
  from 1 2 show ?thesis by simp
qed

text \<open>
  The claim as stated fails on \<^verbatim>\<open>50\% of x\<close>: the escaped percent sign starts a
  comment all the same, and only \<^verbatim>\<open>50\\<close> is left.
\<close>

theorem escaped_percent_starts_comment:
  "stripComments (js ''50'' @ [BACKSLASH, PERCENT] @ js '' of x'') = js ''50'' @ [BACKSLASH]
   \<and> stripComments (js ''50'' @ [BACKSLASH, PERCENT] @ js '' of x'')
       \<noteq> js ''50'' @ [BACKSLASH, PERCENT] @ js '' of x''
   \<and> cleanLatexSyntax (js ''50'' @ [BACKSLASH, PERCENT] @ js '' of x'') = js ''50'' @ [BACKSLASH]"
  by code_simp


subsection \<open>Command stripping\<close>

lemma commandNames_chars:
  "a \<in> set commandNames \<Longrightarrow>
     LBRACE \<notin> set a \<and> RBRACE \<notin> set a \<and> BACKSLASH \<notin> set a"
  by (auto simp: commandNames_def js_def)

lemma commandNames_prefix_free:
  "a \<in> set commandNames \<Longrightarrow> b \<in> set commandNames \<Longrightarrow> prefix a b \<Longrightarrow> a = b"
  by (auto simp: commandNames_def js_def)

lemma first_occurrence_unique:
  "x \<notin> set xs \<Longrightarrow> x \<notin> set xs' \<Longrightarrow> xs @ x # ys = xs' @ x # ys' \<Longrightarrow> xs = xs' \<and> ys = ys'"
proof (induction xs arbitrary: xs')
  case Nil
  then show ?case by (cases xs') auto
next
  case (Cons a xs)
  then show ?case by (cases xs') auto
qed

lemma alternatives_match:
  assumes "\<forall>a \<in> set as. LBRACE \<notin> set a"
    and "a \<in> set as" and "RBRACE \<notin> set arg"
  shows "alternatives as (a @ LBRACE # arg @ RBRACE # r) = Some r"
  using assms(1,2)
proof (induction as)
  case Nil
  then show ?case by simp
next
  case (Cons a0 as)
  let ?s = "a @ LBRACE # arg @ RBRACE # r"
  have here: "braceArgument (LBRACE # arg @ RBRACE # r) = Some r"
    unfolding braceArgument_Some_iff using assms(3) by blast
  show ?case
  proof (cases "literal a0 ?s")
    case None
    then have "a \<noteq> a0" by (auto simp: literal_append)
    with Cons None show ?thesis by simp
  next
    case (Some r1)
    then have s: "a @ LBRACE # arg @ RBRACE # r = a0 @ r1" by (simp add: literal_Some_iff)
    show ?thesis
    proof (cases "braceArgument r1")
      case None
      have "a \<noteq> a0"
      proof
        assume "a = a0"
        with s have "r1 = LBRACE # arg @ RBRACE # r" by simp
        with here None show False by simp
      qed
      with Cons Some None show ?thesis by simp
    next
      case (Some r')
      then obtain arg' where arg': "RBRACE \<notin> set arg'" "r1 = LBRACE # arg' @ RBRACE # r'"
        by (auto simp: braceArgument_Some_iff)
      from Cons.prems have "LBRACE \<notin> set a" "LBRACE \<notin> set a0" by auto
      moreover from s arg' have "a @ LBRACE # arg @ RBRACE # r = a0 @ LBRACE # arg' @ RBRACE # r'"
        by simp
      ultimately have "a = a0 \<and> arg @ RBRACE # r = arg' @ RBRACE # r'"
        by (rule first_occurrence_unique)
      with assms(3) arg' have "r = r'"
        using first_occurrence_unique [of RBRACE arg arg' r r'] by simp
      with Some \<open>literal a0 ?s = Some r1\<close> show ?thesis by simp
    qed
  qed
qed

lemma commandRx_match:
  assumes "a \<in> set commandNames" "RBRACE \<notin> set arg"
  shows "commandRx prev (BACKSLASH # a @ LBRACE # arg @ RBRACE # r) = Some r"
proof -
  have "\<forall>a \<in> set commandNames. LBRACE \<notin> set a" using commandNames_chars by blast
  from alternatives_match [OF this assms] show ?thesis by simp
qed

lemma commandRx_Some_iff:
  "commandRx prev s = Some r \<longleftrightarrow>
     (\<exists>a arg. a \<in> set commandNames \<and> RBRACE \<notin> set arg
        \<and> s = BACKSLASH # a @ LBRACE # arg @ RBRACE # r)"
  using commandRx_Some commandRx_match by blast

lemma replaceAll_commandRx_prev:
  "replaceAll commandRx rep prev s = replaceAll commandRx rep None s"
  by (cases s) simp_all

lemma stripCommands_Nil: "stripCommands [] = []"
  by (simp add: stripCommands_def)

lemma stripCommands_keep:
  "commandRx None (c # cs) = None \<Longrightarrow> stripCommands (c # cs) = c # stripCommands cs"
  unfolding stripCommands_def
  by (simp add: replaceAll_commandRx_prev [of _ "Some c"])

lemma stripCommands_delete:
  assumes "commandRx None s = Some r"
  shows "stripCommands s = stripCommands r"
proof -
  from commandRx_Some [OF assms] obtain a arg where
    s: "s = BACKSLASH # a @ LBRACE # arg @ RBRACE # r" by blast
  then obtain cs where cs: "s = BACKSLASH # cs" and "length r < length s" by simp
  with assms have "replaceAll commandRx [] None s
      = replaceAll commandRx [] (Some (s ! (length cs - length r))) r"
    by simp
  then show ?thesis
    unfolding stripCommands_def by (simp add: replaceAll_commandRx_prev [of _ "Some _"])
qed

lemma stripCommands_occurrence:
  assumes "a \<in> set commandNames" "RBRACE \<notin> set arg"
  shows "stripCommands (BACKSLASH # a @ LBRACE # arg @ RBRACE # r) = stripCommands r"
  by (rule stripCommands_delete) (rule commandRx_match [OF assms])

lemma stripCommands_no_backslash:
  "BACKSLASH \<notin> set u \<Longrightarrow> stripCommands (u @ v) = u @ stripCommands v"
  by (induction u) (simp_all add: stripCommands_keep)

lemma commandRx_bare:
  assumes "a \<in> set commandNames" and "\<forall>r. rest \<noteq> LBRACE # r"
  shows "commandRx prev (BACKSLASH # a @ rest) = None"
proof (rule ccontr)
  assume "commandRx prev (BACKSLASH # a @ rest) \<noteq> None"
  then obtain r where "commandRx prev (BACKSLASH # a @ rest) = Some r" by auto
  from commandRx_Some [OF this] obtain b arg where b: "b \<in> set commandNames"
    and eq: "a @ rest = b @ LBRACE # arg @ RBRACE # r" by auto
  from eq have "prefix a b \<or> prefix b a"
    unfolding append_eq_append_conv2 by (auto simp: prefix_def)
  with commandNames_prefix_free assms(1) b have "a = b" by blast
  with eq have "rest = LBRACE # arg @ RBRACE # r" by simp
  with assms(2) show False by blast
qed

lemma stripCommands_bare:
  assumes "a \<in> set commandNames" and "\<forall>r. rest \<noteq> LBRACE # r"
  shows "stripCommands (BACKSLASH # a @ rest) = BACKSLASH # a @ stripCommands rest"
proof -
  from commandNames_chars [OF assms(1)] have "BACKSLASH \<notin> set a" by simp
  then have "stripCommands (a @ rest) = a @ stripCommands rest"
    by (rule stripCommands_no_backslash)
  with commandRx_bare [OF assms, of None] show ?thesis
    by (simp add: stripCommands_keep)
qed


lemma commandRx_extend:
  assumes "commandRx prev s = Some r"
  shows "commandRx prev (s @ z) = Some (r @ z)"
proof -
  from commandRx_Some [OF assms] obtain a arg where a: "a \<in> set commandNames"
    "RBRACE \<notin> set arg" and s: "s = BACKSLASH # a @ LBRACE # arg @ RBRACE # r" by blast
  from s have "s @ z = BACKSLASH # a @ LBRACE # arg @ RBRACE # (r @ z)" by simp
  with commandRx_match [OF a] show ?thesis by simp
qed

lemma stripCommands_anywhere:
  assumes a: "a \<in> set commandNames" and arg: "RBRACE \<notin> set arg"
  shows "\<exists>pre'. prefix pre' pre \<and>
     stripCommands (pre @ BACKSLASH # a @ LBRACE # arg @ RBRACE # post)
       = stripCommands pre' @ stripCommands post"
proof (induction pre rule: length_induct)
  case (1 pre)
  let ?occ0 = "BACKSLASH # a @ LBRACE # arg"
  let ?s = "pre @ ?occ0 @ RBRACE # post"
  have occ0: "RBRACE \<notin> set ?occ0"
    using commandNames_chars [OF a] arg by simp
  show ?case
  proof (cases pre)
    case Nil
    have "prefix [] pre \<and> stripCommands ?s = stripCommands [] @ stripCommands post"
      using Nil stripCommands_occurrence [OF a arg, of post] by (simp add: stripCommands_Nil)
    then show ?thesis by (intro exI [of _ "[]"]) simp
  next
    case (Cons c pre1)
    show ?thesis
    proof (cases "commandRx None ?s")
      case None
      from 1 Cons obtain pre1' where p: "prefix pre1' pre1"
        and e: "stripCommands (pre1 @ ?occ0 @ RBRACE # post)
                  = stripCommands pre1' @ stripCommands post"
        by force
      from p obtain z where z: "pre1 = pre1' @ z" by (auto simp: prefix_def)
      have "commandRx None (c # pre1') = None"
      proof (rule ccontr)
        assume "commandRx None (c # pre1') \<noteq> None"
        then obtain r0 where "commandRx None (c # pre1') = Some r0" by auto
        from commandRx_extend [OF this, of "z @ ?occ0 @ RBRACE # post"] None Cons z
        show False by simp
      qed
      then have "stripCommands (c # pre1') = c # stripCommands pre1'"
        by (rule stripCommands_keep)
      moreover from None Cons have "stripCommands ?s
          = c # stripCommands (pre1 @ ?occ0 @ RBRACE # post)"
        by (simp add: stripCommands_keep)
      ultimately have "prefix (c # pre1') pre \<and>
          stripCommands ?s = stripCommands (c # pre1') @ stripCommands post"
        using p e Cons by simp
      then show ?thesis by (intro exI [of _ "c # pre1'"]) simp
    next
      case (Some r)
      then have del: "stripCommands ?s = stripCommands r" by (rule stripCommands_delete)
      from commandRx_Some [OF Some] obtain b arg0 where b: "b \<in> set commandNames"
        "RBRACE \<notin> set arg0" and s: "?s = BACKSLASH # b @ LBRACE # arg0 @ RBRACE # r" by blast
      let ?m0 = "BACKSLASH # b @ LBRACE # arg0"
      have m0: "RBRACE \<notin> set ?m0"
        using commandNames_chars [OF b(1)] b(2) by simp
      show ?thesis
      proof (cases "RBRACE \<in> set pre")
        case True
        then obtain p0 us where pre: "pre = p0 @ RBRACE # us" and p0: "RBRACE \<notin> set p0"
          by (meson split_list_first)
        from s pre have "p0 @ RBRACE # (us @ ?occ0 @ RBRACE # post) = ?m0 @ RBRACE # r" by simp
        with p0 m0 have eq: "p0 = ?m0 \<and> us @ ?occ0 @ RBRACE # post = r"
          by (rule first_occurrence_unique)
        from pre have "length us < length pre" by simp
        with 1 obtain us' where u: "prefix us' us"
          and e: "stripCommands (us @ ?occ0 @ RBRACE # post)
                    = stripCommands us' @ stripCommands post"
          by force
        have "stripCommands (?m0 @ RBRACE # us') = stripCommands us'"
          using stripCommands_occurrence [OF b, of us'] by simp
        with del eq e have "stripCommands ?s
            = stripCommands (?m0 @ RBRACE # us') @ stripCommands post"
          by simp
        moreover from u pre eq have "prefix (?m0 @ RBRACE # us') pre" by simp
        ultimately show ?thesis by (intro exI [of _ "?m0 @ RBRACE # us'"]) simp
      next
        case False
        with occ0 have "RBRACE \<notin> set (pre @ ?occ0)" by simp
        moreover note m0
        moreover from s have "(pre @ ?occ0) @ RBRACE # post = ?m0 @ RBRACE # r" by simp
        ultimately have "pre @ ?occ0 = ?m0 \<and> post = r"
          by (rule first_occurrence_unique)
        with del have "prefix [] pre \<and> stripCommands ?s = stripCommands [] @ stripCommands post"
          by (simp add: stripCommands_Nil)
        then show ?thesis by (intro exI [of _ "[]"]) simp
      qed
    qed
  qed
qed

lemma stripComments_no_percent_prefix:
  "PERCENT \<notin> set u \<Longrightarrow> stripComments (u @ v) = u @ stripComments v"
  by (induction u) (simp_all add: stripComments_keep)

lemma commandNames_no_percent: "a \<in> set commandNames \<Longrightarrow> PERCENT \<notin> set a"
  by (auto simp: commandNames_def js_def)

lemma cleanLatexSyntax_occurrence:
  assumes "a \<in> set commandNames" "RBRACE \<notin> set arg" "PERCENT \<notin> set arg"
  shows "cleanLatexSyntax (BACKSLASH # a @ LBRACE # arg @ RBRACE # post) = cleanLatexSyntax post"
proof -
  let ?occ = "BACKSLASH # a @ LBRACE # arg @ [RBRACE]"
  have "PERCENT \<notin> set ?occ"
    using commandNames_no_percent [OF assms(1)] assms(3) by simp
  then have "stripComments (?occ @ post) = ?occ @ stripComments post"
    by (rule stripComments_no_percent_prefix)
  then have "stripCommands (stripComments (?occ @ post)) = stripCommands (stripComments post)"
    using stripCommands_occurrence [OF assms(1,2), of "stripComments post"] by simp
  then show ?thesis by (simp add: cleanLatexSyntax_def)
qed

lemma cleanLatexSyntax_bare:
  assumes "a \<in> set commandNames"
  shows "cleanLatexSyntax (BACKSLASH # a) = BACKSLASH # a"
proof -
  from assms consider "a = js ''label''" | "a = js ''nonumber''" | "a = js ''tag''"
    | "a = js ''qquad''" | "a = js ''quad''" | "a = js ''vspace''" | "a = js ''hspace''"
    by (auto simp: commandNames_def)
  then show ?thesis
  proof cases
    case 1
    have "cleanLatexSyntax (BACKSLASH # js ''label'') = BACKSLASH # js ''label''" by code_simp
    with 1 show ?thesis by simp
  next
    case 2
    have "cleanLatexSyntax (BACKSLASH # js ''nonumber'') = BACKSLASH # js ''nonumber''"
      by code_simp
    with 2 show ?thesis by simp
  next
    case 3
    have "cleanLatexSyntax (BACKSLASH # js ''tag'') = BACKSLASH # js ''tag''" by code_simp
    with 3 show ?thesis by simp
  next
    case 4
    have "cleanLatexSyntax (BACKSLASH # js ''qquad'') = BACKSLASH # js ''qquad''" by code_simp
    with 4 show ?thesis by simp
  next
    case 5
    have "cleanLatexSyntax (BACKSLASH # js ''quad'') = BACKSLASH # js ''quad''" by code_simp
    with 5 show ?thesis by simp
  next
    case 6
    have "cleanLatexSyntax (BACKSLASH # js ''vspace'') = BACKSLASH # js ''vspace''" by code_simp
    with 6 show ?thesis by simp
  next
    case 7
    have "cleanLatexSyntax (BACKSLASH # js ''hspace'') = BACKSLASH # js ''hspace''" by code_simp
    with 7 show ?thesis by simp
  qed
qed

lemma stripCommands_split:
  "stripCommands (pre @ z) = stripCommands pre @ stripCommands z
   \<or> (\<exists>p0 u b arg0 r0. b \<in> set commandNames \<and> RBRACE \<notin> set arg0 \<and> pre = p0 @ u \<and> u \<noteq> []
         \<and> u @ z = BACKSLASH # b @ LBRACE # arg0 @ RBRACE # r0 \<and> length r0 < length z
         \<and> stripCommands (pre @ z) = stripCommands p0 @ stripCommands r0)"
  (is "?A pre \<or> ?B pre")
proof (induction pre rule: length_induct)
  case (1 pre)
  show ?case
  proof (cases pre)
    case Nil
    then show ?thesis by (simp add: stripCommands_Nil)
  next
    case (Cons c pre1)
    show ?thesis
    proof (cases "commandRx None (pre @ z)")
      case None
      have keep: "commandRx None (c # q) = None" if "prefix q pre1" for q
      proof (rule ccontr)
        assume "commandRx None (c # q) \<noteq> None"
        then obtain r0 where r0: "commandRx None (c # q) = Some r0" by auto
        from that obtain y where "pre1 = q @ y" by (auto simp: prefix_def)
        with commandRx_extend [OF r0, of "y @ z"] None Cons show False by simp
      qed
      from None Cons have s: "stripCommands (pre @ z) = c # stripCommands (pre1 @ z)"
        by (simp add: stripCommands_keep)
      from 1 Cons have "?A pre1 \<or> ?B pre1" by simp
      then show ?thesis
      proof
        assume a: "?A pre1"
        have "stripCommands (c # pre1) = c # stripCommands pre1"
          by (rule stripCommands_keep) (rule keep, simp)
        with s a Cons have "?A pre" by simp
        then show ?thesis ..
      next
        assume "?B pre1"
        then obtain p0 u b arg0 r0 where b: "b \<in> set commandNames" "RBRACE \<notin> set arg0"
          and p: "pre1 = p0 @ u" "u \<noteq> []"
          and m: "u @ z = BACKSLASH # b @ LBRACE # arg0 @ RBRACE # r0" "length r0 < length z"
          and e: "stripCommands (pre1 @ z) = stripCommands p0 @ stripCommands r0"
          by blast
        from p have "prefix p0 pre1" by simp
        then have "commandRx None (c # p0) = None" by (rule keep)
        then have "stripCommands (c # p0) = c # stripCommands p0" by (rule stripCommands_keep)
        with s e have e': "stripCommands (pre @ z) = stripCommands (c # p0) @ stripCommands r0"
          by simp
        from p Cons have pp: "pre = (c # p0) @ u" by simp
        have "?B pre"
          by (rule exI [of _ "c # p0"], rule exI [of _ u], rule exI [of _ b],
              rule exI [of _ arg0], rule exI [of _ r0])
             (intro conjI b p(2) m e' pp)
        then show ?thesis ..
      qed
    next
      case (Some r)
      then have del: "stripCommands (pre @ z) = stripCommands r" by (rule stripCommands_delete)
      from commandRx_Some [OF Some] obtain b arg0 where b: "b \<in> set commandNames"
        "RBRACE \<notin> set arg0" and s: "pre @ z = BACKSLASH # b @ LBRACE # arg0 @ RBRACE # r"
        by blast
      let ?M = "BACKSLASH # b @ LBRACE # arg0 @ [RBRACE]"
      from s have "pre @ z = ?M @ r" by simp
      then have "(\<exists>us. pre = ?M @ us \<and> us @ z = r) \<or> (\<exists>us. pre @ us = ?M \<and> z = us @ r)"
        by (simp only: append_eq_append_conv2) blast
      then consider us where "pre = ?M @ us" "us @ z = r"
        | us where "pre @ us = ?M" "z = us @ r"
        by blast
      then show ?thesis
      proof cases
        case 1
        note u1 = this
        have occ: "stripCommands (?M @ q) = stripCommands q" for q
          using stripCommands_occurrence [OF b, of q] by simp
        from u1 have "length us < length pre" by simp
        with \<open>\<forall>ys. length ys < length pre \<longrightarrow> ?A ys \<or> ?B ys\<close> have "?A us \<or> ?B us" by blast
        then show ?thesis
        proof
          assume "?A us"
          with del u1 occ [of us] have "?A pre" by simp
          then show ?thesis ..
        next
          assume "?B us"
          then obtain p0 u b' arg' r0 where b': "b' \<in> set commandNames" "RBRACE \<notin> set arg'"
            and p: "us = p0 @ u" "u \<noteq> []"
            and m: "u @ z = BACKSLASH # b' @ LBRACE # arg' @ RBRACE # r0" "length r0 < length z"
            and e: "stripCommands (us @ z) = stripCommands p0 @ stripCommands r0"
            by blast
          from del u1 e occ [of p0]
          have e': "stripCommands (pre @ z) = stripCommands (?M @ p0) @ stripCommands r0"
            by simp
          from u1 p have pp: "pre = (?M @ p0) @ u" by simp
          have "?B pre"
            by (rule exI [of _ "?M @ p0"], rule exI [of _ u], rule exI [of _ b'],
                rule exI [of _ arg'], rule exI [of _ r0])
               (intro conjI b' p(2) m e' pp)
          then show ?thesis ..
        qed
      next
        case 2
        show ?thesis
        proof (cases "us = []")
          case True
          with 2 have "pre = ?M @ []" "r = z" by simp_all
          with del stripCommands_occurrence [OF b, of "[]"] have "?A pre"
            by (simp add: stripCommands_Nil)
          then show ?thesis ..
        next
          case False
          with 2 have lr: "length r < length z" by simp
          from del have e': "stripCommands (pre @ z) = stripCommands [] @ stripCommands r"
            by (simp add: stripCommands_Nil)
          from Cons have pp: "pre = [] @ pre" and ne: "pre \<noteq> []" by simp_all
          have "?B pre"
            by (rule exI [of _ "[]"], rule exI [of _ pre], rule exI [of _ b],
                rule exI [of _ arg0], rule exI [of _ r])
               (intro conjI b pp ne s lr e')
          then show ?thesis ..
        qed
      qed
    qed
  qed
qed

lemma shorter_prefix_set:
  "u @ z = m @ y \<Longrightarrow> length u \<le> length m \<Longrightarrow> set u \<subseteq> set m"
  by (auto simp: append_eq_append_conv2)

lemma stripCommands_bare_anywhere:
  assumes a: "a \<in> set commandNames" and rest: "\<forall>r. rest \<noteq> LBRACE # r"
  shows "stripCommands (pre @ BACKSLASH # a @ rest)
           = stripCommands pre @ BACKSLASH # a @ stripCommands rest
   \<or> (\<exists>p0 u b arg0 w r0. b \<in> set commandNames \<and> RBRACE \<notin> set arg0 \<and> pre = p0 @ u \<and> u \<noteq> []
         \<and> rest = w @ RBRACE # r0
         \<and> u @ BACKSLASH # a @ w = BACKSLASH # b @ LBRACE # arg0
         \<and> stripCommands (pre @ BACKSLASH # a @ rest) = stripCommands p0 @ stripCommands r0)"
proof -
  let ?z = "BACKSLASH # a @ rest"
  from stripCommands_split [of pre ?z]
  consider "stripCommands (pre @ ?z) = stripCommands pre @ stripCommands ?z"
    | p0 u b arg0 r0 where "b \<in> set commandNames" "RBRACE \<notin> set arg0" "pre = p0 @ u" "u \<noteq> []"
        "u @ ?z = BACKSLASH # b @ LBRACE # arg0 @ RBRACE # r0" "length r0 < length ?z"
        "stripCommands (pre @ ?z) = stripCommands p0 @ stripCommands r0"
    by blast
  then show ?thesis
  proof cases
    case 1
    with stripCommands_bare [OF a rest] show ?thesis by simp
  next
    case 2
    let ?M0 = "BACKSLASH # b @ LBRACE # arg0"
    let ?L = "u @ BACKSLASH # a"
    have m0: "RBRACE \<notin> set ?M0"
      using commandNames_chars [OF 2(1)] 2(2) by simp
    from 2(5) have eq: "?L @ rest = ?M0 @ RBRACE # r0" by simp
    from 2(5) have "length (u @ ?z) = length (?M0 @ RBRACE # r0)" by simp
    then have "length u + length ?z = length ?M0 + 1 + length r0"
      by simp
    with 2(6) have len: "length u \<le> length ?M0" by simp
    from 2(5) have "u @ ?z = ?M0 @ (RBRACE # r0)" by simp
    from this len have "set u \<subseteq> set ?M0" by (rule shorter_prefix_set)
    with m0 have "RBRACE \<notin> set u" by blast
    with commandNames_chars [OF a] have L: "RBRACE \<notin> set ?L" by simp
    from eq have "(\<exists>t. ?L = ?M0 @ t \<and> t @ rest = RBRACE # r0)
        \<or> (\<exists>t. ?L @ t = ?M0 \<and> rest = t @ RBRACE # r0)"
      by (simp only: append_eq_append_conv2) blast
    then consider t where "?L = ?M0 @ t" "t @ rest = RBRACE # r0"
      | t where "?L @ t = ?M0" "rest = t @ RBRACE # r0"
      by blast
    then have "\<exists>w. rest = w @ RBRACE # r0 \<and> ?L @ w = ?M0"
    proof cases
      case 1
      show ?thesis
      proof (cases t)
        case Nil
        with 1 show ?thesis by simp
      next
        case (Cons x xs)
        with 1 have "x = RBRACE" "x \<in> set ?L" by simp_all
        with L show ?thesis by simp
      qed
    next
      case 2
      then show ?thesis by blast
    qed
    then obtain w where w: "rest = w @ RBRACE # r0" "u @ BACKSLASH # a @ w = ?M0" by auto
    have "\<exists>p0 u b arg0 w r0. b \<in> set commandNames \<and> RBRACE \<notin> set arg0 \<and> pre = p0 @ u \<and> u \<noteq> []
         \<and> rest = w @ RBRACE # r0
         \<and> u @ BACKSLASH # a @ w = BACKSLASH # b @ LBRACE # arg0
         \<and> stripCommands (pre @ BACKSLASH # a @ rest) = stripCommands p0 @ stripCommands r0"
      by (rule exI [of _ p0], rule exI [of _ u], rule exI [of _ b], rule exI [of _ arg0],
          rule exI [of _ w], rule exI [of _ r0])
         (intro conjI 2(1,2,3,4,7) w)
    then show ?thesis ..
  qed
qed

text \<open>
  Claim C4, as amended. The command-removal step of \<^verbatim>\<open>cleanLatexSyntax\<close> runs on
  the text the comment stripping leaves and scans it from left to right. Every
  occurrence there of \<^verbatim>\<open>\label\<close>, \<^verbatim>\<open>\nonumber\<close>, \<^verbatim>\<open>\tag\<close>, \<^verbatim>\<open>\qquad\<close>,
  \<^verbatim>\<open>\quad\<close>, \<^verbatim>\<open>\vspace\<close> or \<^verbatim>\<open>\hspace\<close> immediately followed by an opening
  brace and a later closing brace is deleted from the backslash to the first closing
  brace after the opening one (the argument ends at its first closing brace), command
  name and argument together: at the head of the text, and anywhere in it, where nothing
  of the occurrence reaches the result. So \<^verbatim>\<open>cleanLatexSyntax\<close> of such an occurrence
  followed by \<open>post\<close> is \<^verbatim>\<open>cleanLatexSyntax\<close> of \<open>post\<close> when the argument holds
  no \<^verbatim>\<open>%\<close>, and \<^verbatim>\<open>\label{eq:1}x=y\<close> becomes \<^verbatim>\<open>x=y\<close>. A command name that no
  opening brace follows is left unchanged wherever it stands, unless it stands inside
  the argument of a deleted occurrence, and then it is deleted with that argument; a
  bare command that is the whole input, such as \<^verbatim>\<open>\nonumber\<close>, is returned as it is.
\<close>

theorem stripCommands_brace_form_only:
  assumes "a \<in> set commandNames"
  shows "cleanLatexSyntax s = trim (stripBlankLines (stripCommands (stripComments s)))
    \<and> (RBRACE \<notin> set arg \<longrightarrow>
          stripCommands (BACKSLASH # a @ LBRACE # arg @ RBRACE # post) = stripCommands post)
    \<and> (RBRACE \<notin> set arg \<longrightarrow>
          (\<exists>pre'. prefix pre' pre \<and>
             stripCommands (pre @ BACKSLASH # a @ LBRACE # arg @ RBRACE # post)
               = stripCommands pre' @ stripCommands post))
    \<and> (RBRACE \<notin> set arg \<and> PERCENT \<notin> set arg \<longrightarrow>
          cleanLatexSyntax (BACKSLASH # a @ LBRACE # arg @ RBRACE # post) = cleanLatexSyntax post)
    \<and> ((\<forall>r. rest \<noteq> LBRACE # r) \<longrightarrow>
          stripCommands (BACKSLASH # a @ rest) = BACKSLASH # a @ stripCommands rest)
    \<and> ((\<forall>r. rest \<noteq> LBRACE # r) \<longrightarrow>
          stripCommands (pre @ BACKSLASH # a @ rest)
            = stripCommands pre @ BACKSLASH # a @ stripCommands rest
          \<or> (\<exists>p0 u b arg0 w r0. b \<in> set commandNames \<and> RBRACE \<notin> set arg0
                \<and> pre = p0 @ u \<and> u \<noteq> [] \<and> rest = w @ RBRACE # r0
                \<and> u @ BACKSLASH # a @ w = BACKSLASH # b @ LBRACE # arg0
                \<and> stripCommands (pre @ BACKSLASH # a @ rest)
                    = stripCommands p0 @ stripCommands r0))
    \<and> cleanLatexSyntax (BACKSLASH # a) = BACKSLASH # a
    \<and> cleanLatexSyntax ([BACKSLASH] @ js ''label{eq:1}x=y'') = js ''x=y''
    \<and> cleanLatexSyntax ([BACKSLASH] @ js ''nonumber'') = [BACKSLASH] @ js ''nonumber''"
proof (intro conjI impI)
  show "cleanLatexSyntax s = trim (stripBlankLines (stripCommands (stripComments s)))"
    by (simp add: cleanLatexSyntax_def)
  show "stripCommands (BACKSLASH # a @ LBRACE # arg @ RBRACE # post) = stripCommands post"
    if "RBRACE \<notin> set arg"
    using assms that by (rule stripCommands_occurrence)
  show "\<exists>pre'. prefix pre' pre \<and>
      stripCommands (pre @ BACKSLASH # a @ LBRACE # arg @ RBRACE # post)
        = stripCommands pre' @ stripCommands post"
    if "RBRACE \<notin> set arg"
    using assms that by (rule stripCommands_anywhere)
  show "cleanLatexSyntax (BACKSLASH # a @ LBRACE # arg @ RBRACE # post) = cleanLatexSyntax post"
    if "RBRACE \<notin> set arg \<and> PERCENT \<notin> set arg"
    using assms that by (simp add: cleanLatexSyntax_occurrence)
  show "stripCommands (BACKSLASH # a @ rest) = BACKSLASH # a @ stripCommands rest"
    if "\<forall>r. rest \<noteq> LBRACE # r"
    using assms that by (rule stripCommands_bare)
  show "stripCommands (pre @ BACKSLASH # a @ rest)
          = stripCommands pre @ BACKSLASH # a @ stripCommands rest
        \<or> (\<exists>p0 u b arg0 w r0. b \<in> set commandNames \<and> RBRACE \<notin> set arg0
              \<and> pre = p0 @ u \<and> u \<noteq> [] \<and> rest = w @ RBRACE # r0
              \<and> u @ BACKSLASH # a @ w = BACKSLASH # b @ LBRACE # arg0
              \<and> stripCommands (pre @ BACKSLASH # a @ rest)
                  = stripCommands p0 @ stripCommands r0)"
    if "\<forall>r. rest \<noteq> LBRACE # r"
    using assms that by (rule stripCommands_bare_anywhere)
  show "cleanLatexSyntax (BACKSLASH # a) = BACKSLASH # a"
    using assms by (rule cleanLatexSyntax_bare)
  show "cleanLatexSyntax ([BACKSLASH] @ js ''label{eq:1}x=y'') = js ''x=y''"
    by code_simp
  show "cleanLatexSyntax ([BACKSLASH] @ js ''nonumber'') = [BACKSLASH] @ js ''nonumber''"
    by code_simp
qed

theorem stripCommands_brace_form_only_witness:
  "js ''tag'' \<in> set commandNames
   \<and> stripCommands (BACKSLASH # js ''tag'' @ LBRACE # js ''1'' @ RBRACE # js ''b'') = js ''b''
   \<and> cleanLatexSyntax (BACKSLASH # js ''tag'' @ LBRACE # js ''1'' @ RBRACE # js ''b'') = js ''b''
   \<and> stripCommands (BACKSLASH # js ''tag'' @ js '' b'') = BACKSLASH # js ''tag'' @ js '' b''
   \<and> stripCommands (js ''x'' @ BACKSLASH # js ''tag'' @ js '' b'')
       = js ''x'' @ BACKSLASH # js ''tag'' @ js '' b''
   \<and> cleanLatexSyntax (BACKSLASH # js ''tag'') = BACKSLASH # js ''tag''"
proof -
  have t: "js ''tag'' \<in> set commandNames" by (simp add: commandNames_def)
  have r: "RBRACE \<notin> set (js ''1'')" "PERCENT \<notin> set (js ''1'')" by (simp_all add: js_def)
  have n: "\<forall>r. js '' b'' \<noteq> LBRACE # r" by (simp add: js_def)
  have b: "stripCommands (js '' b'') = js '' b''" "stripCommands (js ''b'') = js ''b''"
    "cleanLatexSyntax (js ''b'') = js ''b''" by code_simp+
  have x: "stripCommands (js ''x'' @ BACKSLASH # js ''tag'' @ js '' b'')
      = js ''x'' @ BACKSLASH # js ''tag'' @ js '' b''" by code_simp
  note th = stripCommands_brace_form_only [OF t, of "[]" "js ''1''" "js ''b''" "[]" "js '' b''"]
  from th r have 1: "stripCommands (BACKSLASH # js ''tag'' @ LBRACE # js ''1'' @ RBRACE # js ''b'')
      = stripCommands (js ''b'')" by blast
  from th r have 2: "cleanLatexSyntax (BACKSLASH # js ''tag'' @ LBRACE # js ''1'' @ RBRACE # js ''b'')
      = cleanLatexSyntax (js ''b'')" by blast
  from th n have 3: "stripCommands (BACKSLASH # js ''tag'' @ js '' b'')
      = BACKSLASH # js ''tag'' @ stripCommands (js '' b'')" by blast
  from th have 4: "cleanLatexSyntax (BACKSLASH # js ''tag'') = BACKSLASH # js ''tag''" by blast
  from t 1 2 3 4 b x show ?thesis by simp
qed

text \<open>
  The claim as stated fails three ways. On \<^verbatim>\<open>\label{a%b}\<close> the comment stripping
  runs first and takes the closing brace away, so the command name is not removed. On
  \<^verbatim>\<open>\tag{\frac{1}{2}}x\<close> the argument ends at its first closing brace, and
  \<^verbatim>\<open>{2}}x\<close> is left. On \<^verbatim>\<open>\label{\nonumber}\<close> the bare \<^verbatim>\<open>\nonumber\<close> is deleted
  with the argument it stands in.
\<close>

theorem brace_form_counterexamples:
  "cleanLatexSyntax ([BACKSLASH] @ js ''label{a%b}'') = [BACKSLASH] @ js ''label{a''
   \<and> cleanLatexSyntax ([BACKSLASH] @ js ''label{a%b}'') \<noteq> []
   \<and> cleanLatexSyntax ([BACKSLASH] @ js ''tag{'' @ [BACKSLASH] @ js ''frac{1}{2}}x'')
       = js ''{2}}x''
   \<and> cleanLatexSyntax ([BACKSLASH] @ js ''tag{'' @ [BACKSLASH] @ js ''frac{1}{2}}x'') \<noteq> js ''x''
   \<and> cleanLatexSyntax ([BACKSLASH] @ js ''label{'' @ [BACKSLASH] @ js ''nonumber}'') = []
   \<and> cleanLatexSyntax ([BACKSLASH] @ js ''label{'' @ [BACKSLASH] @ js ''nonumber}'')
       \<noteq> [BACKSLASH] @ js ''nonumber''"
  by code_simp

subsection \<open>Blank-line stripping\<close>

lemma isCRLF_isWhiteSpace: "isCRLF c \<Longrightarrow> isWhiteSpace c"
  by (auto simp: isCRLF_def isWhiteSpace_def)

lemma isCRLF_isLineTerminator: "isCRLF c \<Longrightarrow> isLineTerminator c"
  by (auto simp: isCRLF_def isLineTerminator_def)

lemma spacesToNewline_None_iff:
  "spacesToNewline s = None \<longleftrightarrow> (\<forall>c \<in> set (takeWhile isWhiteSpace s). \<not> isCRLF c)"
  by (induction s) (auto dest: isCRLF_isWhiteSpace split: option.splits)

lemma blankLineRx_Some:
  assumes "blankLineRx p s = Some r"
  shows "length r < length s \<and> isCRLF (s ! (length s - length r - 1)) \<and> startOfLine p"
proof -
  from assms have sol: "startOfLine p" and "spacesToNewline s = Some r"
    by (auto simp: blankLineRx_def split: if_splits)
  from spacesToNewline_Some [OF this(2)] obtain w c where
    s: "s = w @ c # r" and c: "isCRLF c" by blast
  from s have "length s - length r - 1 = length w" by simp
  with s c sol show ?thesis by simp
qed

lemma stripBlank_keep:
  "blankLineRx p (c # cs) = None \<Longrightarrow>
     replaceAll blankLineRx [] p (c # cs) = c # replaceAll blankLineRx [] (Some c) cs"
  by simp

lemma stripBlank_delete:
  assumes "blankLineRx p (c # cs) = Some r"
  shows "\<exists>l. isCRLF l \<and> length r < length (c # cs) \<and>
     replaceAll blankLineRx [] p (c # cs) = replaceAll blankLineRx [] (Some l) r"
proof -
  from blankLineRx_Some [OF assms]
  have "length r < length (c # cs)" "isCRLF ((c # cs) ! (length cs - length r))" by simp_all
  with assms show ?thesis by (intro exI [of _ "(c # cs) ! (length cs - length r)"]) simp
qed

lemma stripBlank_context:
  "startOfLine p = startOfLine p' \<Longrightarrow>
     replaceAll blankLineRx [] p s = replaceAll blankLineRx [] p' s"
  by (cases s) (simp_all add: blankLineRx_def)

lemma stripBlank_stable_Cons:
  "replaceAll blankLineRx [] p (c # cs) = c # cs \<longleftrightarrow>
     blankLineRx p (c # cs) = None \<and> replaceAll blankLineRx [] (Some c) cs = cs"
proof (cases "blankLineRx p (c # cs)")
  case None
  then show ?thesis by simp
next
  case (Some r)
  from stripBlank_delete [OF this] obtain l where
    "length r < length (c # cs)"
    "replaceAll blankLineRx [] p (c # cs) = replaceAll blankLineRx [] (Some l) r" by blast
  moreover have "length (replaceAll blankLineRx [] (Some l) r) \<le> length r"
    by (rule replaceAll_length)
  ultimately have "length (replaceAll blankLineRx [] p (c # cs)) < length (c # cs)" by simp
  then have "replaceAll blankLineRx [] p (c # cs) \<noteq> c # cs" by auto
  with Some show ?thesis by simp
qed

lemma stripBlank_leading_spaces:
  "\<forall>x \<in> set (takeWhile isWhiteSpace s). \<not> isCRLF x \<Longrightarrow>
     \<forall>x \<in> set (takeWhile isWhiteSpace (replaceAll blankLineRx [] q s)). \<not> isCRLF x"
proof (induction s arbitrary: q)
  case Nil
  show ?case by (simp add: blankLineRx_def)
next
  case (Cons d ds)
  from Cons.prems have "spacesToNewline (d # ds) = None"
    by (simp only: spacesToNewline_None_iff)
  then have none: "blankLineRx q (d # ds) = None" by (simp add: blankLineRx_def)
  show ?case
  proof (cases "isWhiteSpace d")
    case True
    with Cons.prems have "\<not> isCRLF d" "\<forall>x \<in> set (takeWhile isWhiteSpace ds). \<not> isCRLF x"
      by simp_all
    with Cons.IH [of "Some d"] none True show ?thesis by simp
  next
    case False
    with none show ?thesis by simp
  qed
qed

lemma stripBlank_idem:
  "replaceAll blankLineRx [] p (replaceAll blankLineRx [] p w) = replaceAll blankLineRx [] p w"
proof (induction w arbitrary: p rule: length_induct)
  case (1 w)
  show ?case
  proof (cases w)
    case Nil
    then show ?thesis by (simp add: blankLineRx_def)
  next
    case (Cons c cs)
    show ?thesis
    proof (cases "blankLineRx p (c # cs)")
      case None
      let ?t = "replaceAll blankLineRx [] (Some c) cs"
      have ih: "replaceAll blankLineRx [] (Some c) ?t = ?t"
        using 1 Cons by simp
      have "blankLineRx p (c # ?t) = None"
      proof (cases "startOfLine p")
        case False
        then show ?thesis by (simp add: blankLineRx_def)
      next
        case True
        with None have "spacesToNewline (c # cs) = None" by (simp add: blankLineRx_def)
        then have a: "\<forall>x \<in> set (takeWhile isWhiteSpace (c # cs)). \<not> isCRLF x"
          by (simp only: spacesToNewline_None_iff)
        have "\<forall>x \<in> set (takeWhile isWhiteSpace (c # ?t)). \<not> isCRLF x"
        proof (cases "isWhiteSpace c")
          case True
          with a have "\<not> isCRLF c" "\<forall>x \<in> set (takeWhile isWhiteSpace cs). \<not> isCRLF x"
            by simp_all
          with stripBlank_leading_spaces [of cs "Some c"] True show ?thesis by simp
        next
          case False
          then show ?thesis by simp
        qed
        then have "spacesToNewline (c # ?t) = None"
          by (simp only: spacesToNewline_None_iff)
        then show ?thesis by (simp add: blankLineRx_def)
      qed
      with ih have "replaceAll blankLineRx [] p (c # ?t) = c # ?t"
        by (simp only: stripBlank_stable_Cons)
      with None Cons show ?thesis by simp
    next
      case (Some r)
      from stripBlank_delete [OF this] obtain l where l: "isCRLF l"
        and len: "length r < length (c # cs)"
        and eq: "replaceAll blankLineRx [] p (c # cs) = replaceAll blankLineRx [] (Some l) r"
        by blast
      let ?t = "replaceAll blankLineRx [] (Some l) r"
      from 1 len Cons have ih: "replaceAll blankLineRx [] (Some l) ?t = ?t" by simp
      from blankLineRx_Some [OF Some] l have "startOfLine p = startOfLine (Some l)"
        by (simp add: isCRLF_isLineTerminator)
      then have "replaceAll blankLineRx [] p ?t = replaceAll blankLineRx [] (Some l) ?t"
        by (rule stripBlank_context)
      with ih eq Cons show ?thesis by simp
    qed
  qed
qed

lemma stripBlankLines_idem: "stripBlankLines (stripBlankLines w) = stripBlankLines w"
  unfolding stripBlankLines_def by (rule stripBlank_idem)


lemma stripBlank_stable_suffix:
  "replaceAll blankLineRx [] p (a @ c # cs) = a @ c # cs \<Longrightarrow>
     replaceAll blankLineRx [] (Some c) cs = cs"
proof (induction a arbitrary: p)
  case Nil
  then show ?case by (simp only: append_Nil stripBlank_stable_Cons)
next
  case (Cons x a)
  from Cons.prems have "replaceAll blankLineRx [] (Some x) (a @ c # cs) = a @ c # cs"
    by (simp only: append_Cons stripBlank_stable_Cons)
  then show ?case by (rule Cons.IH)
qed

lemma stripBlank_stable_trimStart:
  assumes "replaceAll blankLineRx [] None u = u"
  shows "replaceAll blankLineRx [] None (trimStart u) = trimStart u"
proof (cases "trimStart u")
  case Nil
  then show ?thesis by (simp add: blankLineRx_def)
next
  case (Cons c cs)
  then have d: "dropWhile isWhiteSpace u = c # cs" by (simp add: trimStart_def)
  then have c: "\<not> isWhiteSpace c" by (simp add: dropWhile_eq_Cons_conv)
  have "u = takeWhile isWhiteSpace u @ dropWhile isWhiteSpace u" by simp
  with d have "u = takeWhile isWhiteSpace u @ c # cs" by simp
  with assms have "replaceAll blankLineRx [] None (takeWhile isWhiteSpace u @ c # cs)
      = takeWhile isWhiteSpace u @ c # cs" by simp
  then have tl: "replaceAll blankLineRx [] (Some c) cs = cs"
    by (rule stripBlank_stable_suffix)
  from c have "spacesToNewline (c # cs) = None"
    using isCRLF_isWhiteSpace by auto
  then have "blankLineRx None (c # cs) = None" by (simp add: blankLineRx_def)
  with tl have "replaceAll blankLineRx [] None (c # cs) = c # cs"
    by (simp only: stripBlank_stable_Cons)
  with Cons show ?thesis by simp
qed

lemma takeWhile_append_subset: "set (takeWhile P xs) \<subseteq> set (takeWhile P (xs @ ys))"
  by (induction xs) auto

lemma stripBlank_stable_prefix:
  "replaceAll blankLineRx [] p (a @ b) = a @ b \<Longrightarrow> replaceAll blankLineRx [] p a = a"
proof (induction a arbitrary: p)
  case Nil
  show ?case by (simp add: blankLineRx_def)
next
  case (Cons c a)
  from Cons.prems have none: "blankLineRx p (c # a @ b) = None"
    and tl: "replaceAll blankLineRx [] (Some c) (a @ b) = a @ b"
    by (simp_all only: append_Cons stripBlank_stable_Cons)
  from tl have tl': "replaceAll blankLineRx [] (Some c) a = a" by (rule Cons.IH)
  have "blankLineRx p (c # a) = None"
  proof (cases "startOfLine p")
    case False
    then show ?thesis by (simp add: blankLineRx_def)
  next
    case True
    with none have "spacesToNewline ((c # a) @ b) = None" by (simp add: blankLineRx_def)
    then have "\<forall>x \<in> set (takeWhile isWhiteSpace ((c # a) @ b)). \<not> isCRLF x"
      by (simp only: spacesToNewline_None_iff)
    with takeWhile_append_subset [of isWhiteSpace "c # a" b]
    have "\<forall>x \<in> set (takeWhile isWhiteSpace (c # a)). \<not> isCRLF x" by blast
    then have "spacesToNewline (c # a) = None" by (simp only: spacesToNewline_None_iff)
    then show ?thesis by (simp add: blankLineRx_def)
  qed
  with tl' show ?case by (simp only: stripBlank_stable_Cons)
qed

lemma stripBlankLines_stable_trim:
  assumes "stripBlankLines u = u"
  shows "stripBlankLines (trim u) = trim u"
proof -
  from assms have "replaceAll blankLineRx [] None (trimStart u) = trimStart u"
    unfolding stripBlankLines_def by (rule stripBlank_stable_trimStart)
  moreover obtain z where "trimStart u = trimEnd (trimStart u) @ z"
    using trimEnd_prefix by blast
  ultimately have "replaceAll blankLineRx [] None (trimEnd (trimStart u) @ z)
      = trimEnd (trimStart u) @ z" by simp
  then have "replaceAll blankLineRx [] None (trimEnd (trimStart u)) = trimEnd (trimStart u)"
    by (rule stripBlank_stable_prefix)
  then show ?thesis by (simp add: stripBlankLines_def trim_def)
qed

lemma trim_idem: "trim (trim s) = trim s"
proof -
  let ?t = "trimStart s"
  let ?e = "trimEnd ?t"
  have e2: "trimEnd ?e = ?e" by (simp add: trimEnd_def)
  have e1: "trimStart ?e = ?e"
  proof (cases ?e)
    case Nil
    then show ?thesis by (simp add: trimStart_def)
  next
    case (Cons c cs)
    obtain z where z: "?t = ?e @ z" using trimEnd_prefix by blast
    with Cons have "dropWhile isWhiteSpace s = c # cs @ z" by (simp add: trimStart_def)
    then have "\<not> isWhiteSpace c" by (simp add: dropWhile_eq_Cons_conv)
    with Cons show ?thesis by (simp add: trimStart_def)
  qed
  show ?thesis unfolding trim_def by (simp only: e1 e2)
qed

lemma subseq_notin: "subseq xs ys \<Longrightarrow> x \<notin> set ys \<Longrightarrow> x \<notin> set xs"
  by (induction rule: list_emb.induct) auto

lemma stripComments_subseq: "subseq (stripComments s) s"
  unfolding stripComments_def by (rule replaceAll_subseq) (rule commentRx_suffix)

lemma stripCommands_subseq: "subseq (stripCommands s) s"
  unfolding stripCommands_def by (rule replaceAll_subseq) (rule commandRx_suffix)

lemma stripBlankLines_subseq: "subseq (stripBlankLines s) s"
  unfolding stripBlankLines_def by (rule replaceAll_subseq) (rule blankLineRx_suffix)

lemma cleanLatexSyntax_no_percent: "PERCENT \<notin> set (cleanLatexSyntax x)"
proof -
  have "subseq (cleanLatexSyntax x) (stripBlankLines (stripCommands (stripComments x)))"
    unfolding cleanLatexSyntax_def by (rule trim_subseq)
  also have "subseq \<dots> (stripCommands (stripComments x))" by (rule stripBlankLines_subseq)
  also have "subseq \<dots> (stripComments x)" by (rule stripCommands_subseq)
  finally show ?thesis using stripComments_no_percent by (rule subseq_notin)
qed

lemma cleanLatexSyntax_fixed_iff:
  "cleanLatexSyntax (cleanLatexSyntax x) = cleanLatexSyntax x
     \<longleftrightarrow> stripCommands (cleanLatexSyntax x) = cleanLatexSyntax x"
proof
  let ?y = "cleanLatexSyntax x"
  have c: "stripComments ?y = ?y"
    using cleanLatexSyntax_no_percent by (rule stripComments_id)
  have b: "stripBlankLines ?y = ?y"
    unfolding cleanLatexSyntax_def
    by (rule stripBlankLines_stable_trim) (rule stripBlankLines_idem)
  have t: "trim ?y = ?y"
    unfolding cleanLatexSyntax_def by (rule trim_idem)
  show "cleanLatexSyntax ?y = ?y" if "stripCommands ?y = ?y"
    using that c b t by (simp add: cleanLatexSyntax_def [of ?y])
  show "stripCommands ?y = ?y" if fixed: "cleanLatexSyntax ?y = ?y"
  proof -
    have "subseq (cleanLatexSyntax ?y) (stripBlankLines (stripCommands ?y))"
      using trim_subseq [of "stripBlankLines (stripCommands ?y)"] c
      by (simp add: cleanLatexSyntax_def [of ?y])
    also have "subseq \<dots> (stripCommands ?y)" by (rule stripBlankLines_subseq)
    finally have "subseq ?y (stripCommands ?y)" using fixed by simp
    with stripCommands_subseq [of ?y] show ?thesis by (rule subseq_order.antisym)
  qed
qed

text \<open>
  Claim C6, as amended. \<^verbatim>\<open>cleanLatexSyntax\<close> applied to its own result
  \<^verbatim>\<open>cleanLatexSyntax(x)\<close> returns that result again whenever the command removal
  leaves \<^verbatim>\<open>cleanLatexSyntax(x)\<close> unchanged, that is, whenever no removable command
  with a brace argument is left in it; and only then.
\<close>

theorem cleanLatexSyntax_idempotent_iff:
  "(stripCommands (cleanLatexSyntax x) = cleanLatexSyntax x \<longrightarrow>
      cleanLatexSyntax (cleanLatexSyntax x) = cleanLatexSyntax x)
   \<and> (cleanLatexSyntax (cleanLatexSyntax x) = cleanLatexSyntax x \<longrightarrow>
      stripCommands (cleanLatexSyntax x) = cleanLatexSyntax x)"
  using cleanLatexSyntax_fixed_iff [of x] by blast

theorem cleanLatexSyntax_idempotent_iff_witness:
  "cleanLatexSyntax ([BACKSLASH] @ js ''label{eq:1}x=y  %c'') = js ''x=y''
   \<and> stripCommands (js ''x=y'') = js ''x=y''
   \<and> cleanLatexSyntax (cleanLatexSyntax ([BACKSLASH] @ js ''label{eq:1}x=y  %c''))
       = cleanLatexSyntax ([BACKSLASH] @ js ''label{eq:1}x=y  %c'')"
proof -
  have a: "cleanLatexSyntax ([BACKSLASH] @ js ''label{eq:1}x=y  %c'') = js ''x=y''"
    by code_simp
  have b: "stripCommands (js ''x=y'') = js ''x=y''" by code_simp
  from cleanLatexSyntax_idempotent_iff [of "[BACKSLASH] @ js ''label{eq:1}x=y  %c''"] a b
  show ?thesis by simp
qed

text \<open>
  The claim as stated fails on \<^verbatim>\<open>\la\label{x}bel{y}\<close>: removing \<^verbatim>\<open>\label{x}\<close>
  joins the text around it to \<^verbatim>\<open>\label{y}\<close>, which a second application removes.
\<close>

theorem cleanLatexSyntax_not_idempotent:
  "cleanLatexSyntax ([BACKSLASH] @ js ''la'' @ [BACKSLASH] @ js ''label{x}bel{y}'')
     = [BACKSLASH] @ js ''label{y}''
   \<and> cleanLatexSyntax
       (cleanLatexSyntax ([BACKSLASH] @ js ''la'' @ [BACKSLASH] @ js ''label{x}bel{y}'')) = []
   \<and> cleanLatexSyntax
       (cleanLatexSyntax ([BACKSLASH] @ js ''la'' @ [BACKSLASH] @ js ''label{x}bel{y}''))
     \<noteq> cleanLatexSyntax ([BACKSLASH] @ js ''la'' @ [BACKSLASH] @ js ''label{x}bel{y}'')"
  by code_simp


end
